theory Spec2Isabelle
  imports Complex_Main "HOL-Library.AList"
begin

section \<open>Path canonicalisation (src/lib/index-files.ts, formatPath)\<close>

text \<open>
  Paths are JavaScript strings; they are modelled as \<^typ>\<open>string\<close> (character lists).
  All four patterns of \<open>formatPath\<close> are ASCII, so the model agrees with the source on
  every path whose characters are read one list element each.

  The source chains four \<open>String.prototype.replace\<close> calls:
  \<^verbatim>\<open>
    path
      .replace(/\\\\/g, '/')
      .replace(/\d{2}-/g, '')
      .replace(/\.mdx$/, '')
      .replace(/\\index$/, '')
  \<close>
  In a regular-expression literal \<open>\\\<close> stands for one backslash character, so the first
  pattern matches two consecutive backslash characters and the last one matches a
  backslash character followed by \<open>index\<close> at the end of the input.
\<close>

definition backslash :: char where
  "backslash = CHR 0x5C"

text \<open>\<open>.replace(/\\\\/g, '/')\<close>: a global replace scans left to right and resumes after
  each match, so matches do not overlap.\<close>

fun replace_double_backslash :: "string \<Rightarrow> string" where
  "replace_double_backslash (a # b # cs) =
     (if a = backslash \<and> b = backslash then CHR ''/'' # replace_double_backslash cs
      else a # replace_double_backslash (b # cs))"
| "replace_double_backslash cs = cs"

text \<open>\<open>\d\<close> without the unicode flag is the class \<open>[0-9]\<close>.\<close>

definition is_digit :: "char \<Rightarrow> bool" where
  "is_digit c = (c \<in> set ''0123456789'')"

text \<open>\<open>.replace(/\d{2}-/g, '')\<close>: every non-overlapping occurrence of two digits and a
  dash is deleted, wherever it stands in the path.\<close>

fun remove_order_prefixes :: "string \<Rightarrow> string" where
  "remove_order_prefixes (a # b # c # cs) =
     (if is_digit a \<and> is_digit b \<and> c = CHR ''-'' then remove_order_prefixes cs
      else a # remove_order_prefixes (b # c # cs))"
| "remove_order_prefixes cs = cs"

definition ends_with :: "string \<Rightarrow> string \<Rightarrow> bool" where
  "ends_with s suf = (length suf \<le> length s \<and> drop (length s - length suf) s = suf)"

text \<open>A non-global replace of a pattern anchored by \<open>$\<close> (no multiline flag): the only
  possible match is the end of the input.\<close>

definition remove_at_end :: "string \<Rightarrow> string \<Rightarrow> string" where
  "remove_at_end suf s = (if ends_with s suf then take (length s - length suf) s else s)"

definition formatPath :: "string \<Rightarrow> string" where
  "formatPath path =
     remove_at_end (backslash # ''index'')
       (remove_at_end ''.mdx''
         (remove_order_prefixes
           (replace_double_backslash path)))"

section \<open>Syntax trees (estree and mdast, as the source reads them)\<close>

text \<open>
  The value of an estree \<open>Literal\<close>: a string, a number, a boolean, \<open>null\<close>, a bigint or a
  regular expression. A numeric literal is a finite non-negative number; it is modelled
  as a real.
\<close>

datatype literal_value =
    LString string
  | LNumber real
  | LBoolean bool
  | LNull
  | LBigInt int
  | LRegExp string

datatype expression =
    Identifier string
  | Literal literal_value
  | ObjectExpression "property list"
  | OtherExpression
and property =
    Property expression expression
  | SpreadElement expression

datatype pattern = PIdentifier string | POther

datatype declarator = VariableDeclarator pattern "expression option"

datatype es_declaration = VariableDeclaration "declarator list" | OtherDeclaration

datatype statement = ExportNamedDeclaration "es_declaration option" | OtherStatement

text \<open>An mdast node: its \<open>type\<close>, the program body under \<open>data.estree\<close> when there is
  one, its children (none for a leaf) and its text.\<close>

datatype node =
  Node (ntype: string) (estree: "statement list option") (children: "node list") (nvalue: string)

definition root :: "node list \<Rightarrow> node" where
  "root cs = Node ''root'' None cs []"

text \<open>JavaScript truthiness of a literal's value: \<open>''\<close>, \<open>0\<close>, \<open>false\<close>, \<open>null\<close> and \<open>0n\<close> are
  falsy, everything else (a regular expression is an object) is truthy.\<close>

fun truthy :: "literal_value \<Rightarrow> bool" where
  "truthy (LString s) = (s \<noteq> [])"
| "truthy (LNumber r) = (r \<noteq> 0)"
| "truthy (LBoolean b) = b"
| "truthy LNull = False"
| "truthy (LBigInt i) = (i \<noteq> 0)"
| "truthy (LRegExp r) = True"

section \<open>Meta extraction (getObjectFromExpression, extractMetaExport)\<close>

text \<open>
  The result of \<open>getObjectFromExpression\<close> is a JavaScript object whose values may be
  \<open>undefined\<close>: an association list in insertion order, \<open>None\<close> standing for
  \<open>undefined\<close>. \<open>{...object, [key]: value}\<close> keeps the position of a key that is already
  there and replaces its value, which is \<^const>\<open>AList.update\<close>.
\<close>

type_synonym meta = "(string \<times> literal_value option) list"

text \<open>\<open>(property.key.type === 'Identifier' && property.key.name) || undefined\<close>\<close>

fun property_key :: "expression \<Rightarrow> string option" where
  "property_key (Identifier name) = (if name \<noteq> [] then Some name else None)"
| "property_key _ = None"

text \<open>\<open>(property.value.type === 'Literal' && property.value.value) || undefined\<close>\<close>

fun property_value :: "expression \<Rightarrow> literal_value option" where
  "property_value (Literal v) = (if truthy v then Some v else None)"
| "property_value _ = None"

fun getObject_step :: "meta \<Rightarrow> property \<Rightarrow> meta" where
  "getObject_step object (SpreadElement e) = object"
| "getObject_step object (Property k v) =
     (case property_key k of
        None \<Rightarrow> object
      | Some key \<Rightarrow> AList.update key (property_value v) object)"

definition getObjectFromExpression :: "property list \<Rightarrow> meta" where
  "getObjectFromExpression properties = foldl getObject_step [] properties"

text \<open>The first declarator of the first statement of an ESM node, when that statement is
  an \<open>ExportNamedDeclaration\<close> of a \<open>VariableDeclaration\<close>: the chain
  \<open>node.data?.estree?.body[0]?. ... .declarations[0]?\<close> of the source.\<close>

fun first_declarator :: "node \<Rightarrow> declarator option" where
  "first_declarator (Node t (Some (ExportNamedDeclaration (Some (VariableDeclaration (d # ds))) # sts)) cs v) =
     (if t = ''mdxjsEsm'' then Some d else None)"
| "first_declarator _ = None"

fun is_meta_export :: "node \<Rightarrow> bool" where
  "is_meta_export nd =
     (case first_declarator nd of
        Some (VariableDeclarator (PIdentifier name) init) \<Rightarrow> name = ''meta''
      | _ \<Rightarrow> False)"

definition extractMetaExport :: "node \<Rightarrow> meta option" where
  "extractMetaExport mdxTree =
     (case find is_meta_export (children mdxTree) of
        None \<Rightarrow> None
      | Some metaExportNode \<Rightarrow>
          (case first_declarator metaExportNode of
             Some (VariableDeclarator (PIdentifier name) (Some (ObjectExpression properties))) \<Rightarrow>
               if name = ''meta'' then Some (getObjectFromExpression properties) else None
           | _ \<Rightarrow> None))"

section \<open>Segmentation (splitTreeBy)\<close>

text \<open>
  \<open>splitTreeBy\<close> reduces over the children of the tree. The accumulator is the list of
  trees built so far; \<open>lastTree.children.push(node)\<close> changes the last tree of that list
  in place.
\<close>

definition push_child :: "node \<Rightarrow> node \<Rightarrow> node" where
  "push_child t nd = Node (ntype t) (estree t) (children t @ [nd]) (nvalue t)"

definition splitTreeBy_step :: "(node \<Rightarrow> bool) \<Rightarrow> node list \<Rightarrow> node \<Rightarrow> node list" where
  "splitTreeBy_step predicate trees nd =
     (if trees = [] \<or> predicate nd then trees @ [root [nd]]
      else butlast trees @ [push_child (last trees) nd])"

definition splitTreeBy :: "node \<Rightarrow> (node \<Rightarrow> bool) \<Rightarrow> node list" where
  "splitTreeBy tree predicate = foldl (splitTreeBy_step predicate) [] (children tree)"

definition is_heading :: "node \<Rightarrow> bool" where
  "is_heading nd = (ntype nd = ''heading'')"

section \<open>The external collaborators\<close>

text \<open>
  Functions of libraries and services that the source calls and that are not part of the
  repository are parameters of the model: reading a file, hashing, the markdown parser,
  the tree filter, the serialisers, the slugger and the embedding service. A result
  \<open>None\<close> of \<open>readFile\<close> or \<open>fromMarkdown\<close> stands for the call throwing. The slugger is a
  stateful object; its answer is a function of the headings it was given before (in
  order) and of the heading at hand. \<open>embeddings_create\<close> is the answer of the embedding
  service when it answers: the vector and \<open>usage.total_tokens\<close>. \<open>cosine_distance\<close> is
  the store's vector operator \<open><=>\<close>, \<open>path_join\<close> and \<open>localeCompare\<close> are the platform's.

  The embedding service and the database can fail at any call. \<open>fails E history call\<close>
  says whether the call fails, given the calls made before it; the theorems below hold
  for every such function unless they say otherwise.
\<close>

text \<open>
  Every call that leaves the process (the file system, the embedding service, the
  database client) is recorded as an event, in the order the calls are made.
\<close>

datatype event =
    ReadFileCall string
  | FindPage "string option"
  | DeleteSections nat
  | UpsertPage string
  | UpdateParent nat "nat option"
  | EmbeddingCall string
  | CreateSection nat
  | WriteEmbedding nat
  | SetChecksum nat string
  | QuerySections
  | Disconnect

record env =
  readFile :: "string \<Rightarrow> string option"
  sha256_base64 :: "string \<Rightarrow> string"
  fromMarkdown :: "string \<Rightarrow> node option"
  unist_filter :: "node \<Rightarrow> (node \<Rightarrow> bool) \<Rightarrow> node option"
  toMarkdown :: "node \<Rightarrow> string"
  toString :: "node \<Rightarrow> string"
  slugger_slug :: "string list \<Rightarrow> string \<Rightarrow> string"
  embeddings_create :: "string \<Rightarrow> real list \<times> nat"
  cosine_distance :: "real list \<Rightarrow> real list \<Rightarrow> real"
  path_join :: "string \<Rightarrow> string \<Rightarrow> string"
  localeCompare :: "string \<Rightarrow> string \<Rightarrow> int"
  fails :: "event list \<Rightarrow> event \<Rightarrow> bool"

datatype error =
    ReadError
  | ParseError
  | TypeError
  | ProviderError
  | StoreError
  | DisconnectError
  | MissingApiKey

section \<open>processMdxForSearch\<close>

record doc_section =
  sec_content :: string
  sec_heading :: "string option"
  sec_slug :: "string option"

record processed_mdx =
  mdx_checksum :: string
  mdx_meta :: "meta option"
  mdx_sections :: "doc_section list"

text \<open>The test handed to \<open>filter\<close>: the node's type is none of the five MDX types.\<close>

definition not_mdx :: "node \<Rightarrow> bool" where
  "not_mdx nd = (ntype nd \<notin> set [''mdxjsEsm'', ''mdxJsxFlowElement'', ''mdxJsxTextElement'',
                                  ''mdxFlowExpression'', ''mdxTextExpression''])"

text \<open>
  \<open>sectionTrees.map(...)\<close>, with the slugger's history threaded through. Reading
  \<open>firstNode.type\<close> of a tree without children would throw a \<open>TypeError\<close>. A heading whose
  text is empty is falsy, so it gets no slug and the slugger is not called.
\<close>

fun make_sections :: "env \<Rightarrow> string list \<Rightarrow> node list \<Rightarrow> error + doc_section list" where
  "make_sections E seen [] = Inr []"
| "make_sections E seen (tree # trees) =
     (case children tree of
        [] \<Rightarrow> Inl TypeError
      | firstNode # others \<Rightarrow>
          let heading = (if ntype firstNode = ''heading'' then Some (toString E firstNode) else None);
              (slug, seen') =
                (case heading of
                   None \<Rightarrow> (None, seen)
                 | Some h \<Rightarrow> if h \<noteq> [] then (Some (slugger_slug E seen h), seen @ [h]) else (None, seen))
          in (case make_sections E seen' trees of
                Inl e \<Rightarrow> Inl e
              | Inr rest \<Rightarrow>
                  Inr (\<lparr>sec_content = toMarkdown E tree, sec_heading = heading, sec_slug = slug\<rparr> # rest)))"

definition processMdxForSearch :: "env \<Rightarrow> string \<Rightarrow> error + processed_mdx" where
  "processMdxForSearch E content =
     (let checksum = sha256_base64 E content in
      case fromMarkdown E content of
        None \<Rightarrow> Inl ParseError
      | Some mdxTree \<Rightarrow>
          let meta = extractMetaExport mdxTree in
          (case unist_filter E mdxTree not_mdx of
             None \<Rightarrow> Inr \<lparr>mdx_checksum = checksum, mdx_meta = meta, mdx_sections = []\<rparr>
           | Some mdTree \<Rightarrow>
               (case make_sections E [] (splitTreeBy mdTree is_heading) of
                  Inl e \<Rightarrow> Inl e
                | Inr sections \<Rightarrow>
                    Inr \<lparr>mdx_checksum = checksum, mdx_meta = meta, mdx_sections = sections\<rparr>)))"

section \<open>The store (src/lib/seed.ts) and the calls on it\<close>

text \<open>
  The two tables of \<open>seed.ts\<close>. Identifiers are \<open>BIGSERIAL\<close> values, modelled as natural
  numbers; a nullable column is an \<open>option\<close>.
\<close>

record page =
  page_id :: nat
  page_parent_page_id :: "nat option"
  page_path :: string
  page_checksum :: "string option"
  page_meta :: "meta option"
  page_type :: "string option"
  page_source :: "string option"

record page_section =
  ps_id :: nat
  ps_page_id :: nat
  ps_content :: "string option"
  ps_token_count :: "nat option"
  ps_embedding :: "real list option"
  ps_slug :: "string option"
  ps_heading :: "string option"

record world =
  pages :: "page list"
  page_sections :: "page_section list"
  next_page_id :: nat
  next_section_id :: nat
  calls :: "event list"

type_synonym 'a io = "world \<Rightarrow> (error + 'a) \<times> world"

definition io_return :: "'a \<Rightarrow> 'a io" where
  "io_return a w = (Inr a, w)"

definition io_bind :: "'a io \<Rightarrow> ('a \<Rightarrow> 'b io) \<Rightarrow> 'b io" where
  "io_bind m k w = (case m w of (Inl e, w') \<Rightarrow> (Inl e, w') | (Inr a, w') \<Rightarrow> k a w')"

text \<open>An awaited call: it is recorded, then it either fails (the promise rejects) or runs.\<close>

definition call :: "env \<Rightarrow> event \<Rightarrow> error \<Rightarrow> 'a io \<Rightarrow> 'a io" where
  "call E ev err run w =
     (let w' = w\<lparr>calls := calls w @ [ev]\<rparr> in
      if fails E (calls w) ev then (Inl err, w') else run w')"

definition page_by_path :: "world \<Rightarrow> string \<Rightarrow> page option" where
  "page_by_path w p = find (\<lambda>pg. page_path pg = p) (pages w)"

definition page_by_id :: "world \<Rightarrow> nat \<Rightarrow> page option" where
  "page_by_id w i = find (\<lambda>pg. page_id pg = i) (pages w)"

text \<open>\<open>prisma.page.findUnique({ where: { path } })\<close>. When the path is \<open>undefined\<close> there is
  nothing to look up and no page is found (a client that refuses such a lookup is one
  of the failures \<open>fails\<close> can raise).\<close>

definition findUnique :: "env \<Rightarrow> string option \<Rightarrow> page option io" where
  "findUnique E p =
     call E (FindPage p) StoreError
       (\<lambda>w. (Inr (case p of None \<Rightarrow> None | Some q \<Rightarrow> page_by_path w q), w))"

text \<open>The same lookup with \<open>parentPage: true\<close> selected: the page and the page its
  \<open>parent_page_id\<close> refers to.\<close>

definition parentPage_of :: "world \<Rightarrow> page \<Rightarrow> page option" where
  "parentPage_of w pg =
     (case page_parent_page_id pg of None \<Rightarrow> None | Some i \<Rightarrow> page_by_id w i)"

definition findUnique_with_parent :: "env \<Rightarrow> string \<Rightarrow> (page \<times> page option) option io" where
  "findUnique_with_parent E p =
     call E (FindPage (Some p)) StoreError
       (\<lambda>w. (Inr (map_option (\<lambda>pg. (pg, parentPage_of w pg)) (page_by_path w p)), w))"

text \<open>\<open>prisma.pageSection.deleteMany({ where: { pageId } })\<close>\<close>

definition deleteMany :: "env \<Rightarrow> nat \<Rightarrow> unit io" where
  "deleteMany E pid =
     call E (DeleteSections pid) StoreError
       (\<lambda>w. (Inr (), w\<lparr>page_sections := filter (\<lambda>s. ps_page_id s \<noteq> pid) (page_sections w)\<rparr>))"

text \<open>
  \<open>prisma.page.upsert({ where: { path }, update: {...}, create: {...} })\<close>. Both branches
  write \<open>checksum: null\<close>. A field given as \<open>undefined\<close> (\<open>meta\<close> when the document has no
  meta export, \<open>parentPageId\<close> when no parent page was found) is left as it is by an
  update and is \<open>NULL\<close> in a created row.
\<close>

definition upsert_update :: "string \<Rightarrow> string \<Rightarrow> string \<Rightarrow> meta option \<Rightarrow> nat option \<Rightarrow> page \<Rightarrow> page" where
  "upsert_update path type source meta parentPageId pg =
     pg\<lparr>page_checksum := None,
        page_path := path,
        page_type := Some type,
        page_source := Some source,
        page_meta := (case meta of None \<Rightarrow> page_meta pg | Some m \<Rightarrow> Some m),
        page_parent_page_id :=
          (case parentPageId of None \<Rightarrow> page_parent_page_id pg | Some i \<Rightarrow> Some i)\<rparr>"

definition upsert :: "env \<Rightarrow> string \<Rightarrow> string \<Rightarrow> string \<Rightarrow> meta option \<Rightarrow> nat option \<Rightarrow> page io" where
  "upsert E path type source meta parentPageId =
     call E (UpsertPage path) StoreError
       (\<lambda>w. case page_by_path w path of
               Some existing \<Rightarrow>
                 (Inr (upsert_update path type source meta parentPageId existing),
                  w\<lparr>pages :=
                      map (\<lambda>pg. if page_path pg = path
                                 then upsert_update path type source meta parentPageId pg else pg)
                        (pages w)\<rparr>)
             | None \<Rightarrow>
                 let created =
                       \<lparr>page_id = next_page_id w,
                        page_parent_page_id = parentPageId,
                        page_path = path,
                        page_checksum = None,
                        page_meta = meta,
                        page_type = Some type,
                        page_source = Some source\<rparr>
                 in (Inr created, w\<lparr>pages := pages w @ [created], next_page_id := Suc (next_page_id w)\<rparr>))"

text \<open>\<open>prisma.page.update({ where: { id }, data: { parentPageId } })\<close>: the client throws
  when no row has the id; \<open>parentPageId: undefined\<close> changes nothing.\<close>

definition update_parent :: "env \<Rightarrow> nat \<Rightarrow> nat option \<Rightarrow> unit io" where
  "update_parent E i parentPageId =
     call E (UpdateParent i parentPageId) StoreError
       (\<lambda>w. case page_by_id w i of
               None \<Rightarrow> (Inl StoreError, w)
             | Some found \<Rightarrow>
                 (case parentPageId of
                    None \<Rightarrow> (Inr (), w)
                  | Some q \<Rightarrow>
                      (Inr (), w\<lparr>pages :=
                                  map (\<lambda>pg. if page_id pg = i then pg\<lparr>page_parent_page_id := Some q\<rparr> else pg)
                                    (pages w)\<rparr>)))"

text \<open>\<open>prisma.page.update({ where: { id }, data: { checksum } })\<close>\<close>

definition update_checksum :: "env \<Rightarrow> nat \<Rightarrow> string \<Rightarrow> unit io" where
  "update_checksum E i checksum =
     call E (SetChecksum i checksum) StoreError
       (\<lambda>w. case page_by_id w i of
               None \<Rightarrow> (Inl StoreError, w)
             | Some found \<Rightarrow>
                 (Inr (), w\<lparr>pages :=
                             map (\<lambda>pg. if page_id pg = i then pg\<lparr>page_checksum := Some checksum\<rparr> else pg)
                               (pages w)\<rparr>))"

text \<open>\<open>prisma.pageSection.create\<close>: \<open>page_id\<close> is a foreign key (\<open>NOT NULL REFERENCES page\<close>),
  so the insert is refused when no page has the id. The new row has no embedding yet.\<close>

definition create_section :: "env \<Rightarrow> nat \<Rightarrow> doc_section \<Rightarrow> nat \<Rightarrow> page_section io" where
  "create_section E pid sec tokens =
     call E (CreateSection pid) StoreError
       (\<lambda>w. case page_by_id w pid of
               None \<Rightarrow> (Inl StoreError, w)
             | Some pg \<Rightarrow>
                 let row =
                       \<lparr>ps_id = next_section_id w,
                        ps_page_id = pid,
                        ps_content = Some (sec_content sec),
                        ps_token_count = Some tokens,
                        ps_embedding = None,
                        ps_slug = sec_slug sec,
                        ps_heading = sec_heading sec\<rparr>
                 in (Inr row, w\<lparr>page_sections := page_sections w @ [row],
                                 next_section_id := Suc (next_section_id w)\<rparr>))"

text \<open>The raw \<open>UPDATE page_section SET embedding = ...::vector WHERE id = ...\<close>. The column
  is \<open>VECTOR(1536)\<close>: a vector of another dimension is refused by the store.\<close>

definition write_embedding :: "env \<Rightarrow> nat \<Rightarrow> real list \<Rightarrow> unit io" where
  "write_embedding E sid vectors =
     call E (WriteEmbedding sid) StoreError
       (\<lambda>w. if length vectors \<noteq> 1536 then (Inl StoreError, w)
             else (Inr (), w\<lparr>page_sections :=
                               map (\<lambda>s. if ps_id s = sid then s\<lparr>ps_embedding := Some vectors\<rparr> else s)
                                 (page_sections w)\<rparr>))"

text \<open>\<open>prisma.$disconnect()\<close>\<close>

definition disconnect :: "env \<Rightarrow> unit io" where
  "disconnect E = call E Disconnect DisconnectError (io_return ())"

section \<open>generateEmbedding (src/lib/seed.ts, second file)\<close>

definition newline :: char where
  "newline = CHR 0x0A"

definition generateEmbedding :: "env \<Rightarrow> string \<Rightarrow> (real list \<times> nat) io" where
  "generateEmbedding E input_text =
     (let input = map (\<lambda>c. if c = newline then CHR '' '' else c) input_text in
      call E (EmbeddingCall input) ProviderError (io_return (embeddings_create E input)))"

section \<open>The document walker (walk, third file of src/lib/seed.ts)\<close>

text \<open>
  What \<open>readdir\<close> and \<open>stat\<close> show of a readable file hierarchy: a directory lists named
  entries, each a directory, a regular file or something else.
\<close>

datatype fs_node = FsFile | FsDirectory "(string \<times> fs_node) list" | FsOther

record walk_entry =
  entry_path :: string
  entry_parentPath :: "string option"

text \<open>\<open>flattenedFiles.sort((a, b) => a.path.localeCompare(b.path))\<close>: the sort is stable.\<close>

fun insert_entry :: "env \<Rightarrow> walk_entry \<Rightarrow> walk_entry list \<Rightarrow> walk_entry list" where
  "insert_entry E a [] = [a]"
| "insert_entry E a (b # bs) =
     (if localeCompare E (entry_path a) (entry_path b) \<le> 0 then a # b # bs
      else b # insert_entry E a bs)"

definition sort_entries :: "env \<Rightarrow> walk_entry list \<Rightarrow> walk_entry list" where
  "sort_entries E xs = foldr (insert_entry E) xs []"

text \<open>
  \<open>walk dir parentPath\<close> on the entries of the directory \<open>dir\<close>. When the directory lists
  \<open>index.mdx\<close>, the parent path becomes \<open>join(dir, 'index.mdx')\<close> for everything in and
  below the directory. \<open>walk_files\<close> is the \<open>immediateFiles.map(...)\<close> of the source.
\<close>

fun walk :: "env \<Rightarrow> string \<Rightarrow> string option \<Rightarrow> (string \<times> fs_node) list \<Rightarrow> walk_entry list"
and walk_files :: "env \<Rightarrow> string \<Rightarrow> string option \<Rightarrow> (string \<times> fs_node) list \<Rightarrow> walk_entry list list"
where
  "walk E dir parentPath immediateFiles =
     (let parentPath' =
            (if ''index.mdx'' \<in> set (map fst immediateFiles)
             then Some (path_join E dir ''index.mdx'') else parentPath)
      in sort_entries E (concat (walk_files E dir parentPath' immediateFiles)))"
| "walk_files E dir parentPath [] = []"
| "walk_files E dir parentPath ((file, nd) # rest) =
     (case nd of
        FsDirectory sub \<Rightarrow> walk E (path_join E dir file) parentPath sub
      | FsFile \<Rightarrow> [\<lparr>entry_path = path_join E dir file, entry_parentPath = parentPath\<rparr>]
      | FsOther \<Rightarrow> [])
     # walk_files E dir parentPath rest"

section \<open>The sync engine (indexFiles)\<close>

record embedding_source =
  src_source :: string
  src_path :: string
  src_parentPath :: "string option"
  src_filePath :: string
  src_parentFilePath :: "string option"

text \<open>The constructor of \<open>MarkdownEmbeddingSource\<close>; \<open>parentFilePath ? ... : undefined\<close>
  treats the empty string like an absent parent.\<close>

definition MarkdownEmbeddingSource :: "string \<Rightarrow> string \<Rightarrow> string option \<Rightarrow> embedding_source" where
  "MarkdownEmbeddingSource source filePath parentFilePath =
     \<lparr>src_source = source,
      src_path = formatPath filePath,
      src_parentPath =
        (case parentFilePath of
           None \<Rightarrow> None
         | Some p \<Rightarrow> if p \<noteq> [] then Some (formatPath p) else None),
      src_filePath = filePath,
      src_parentFilePath = parentFilePath\<rparr>"

text \<open>\<open>embeddingSource.load()\<close>: read the file, then segment it.\<close>

definition load :: "env \<Rightarrow> embedding_source \<Rightarrow> processed_mdx io" where
  "load E src w =
     (let w' = w\<lparr>calls := calls w @ [ReadFileCall (src_filePath src)]\<rparr> in
      case readFile E (src_filePath src) of
        None \<Rightarrow> (Inl ReadError, w')
      | Some contents \<Rightarrow>
          (case processMdxForSearch E contents of
             Inl e \<Rightarrow> (Inl e, w')
           | Inr mdx \<Rightarrow> (Inr mdx, w')))"

text \<open>The body of the loop over the sections: the text to embed is the heading, a space
  and the content when the heading is a non-empty string, and the content otherwise.\<close>

definition concattedContent :: "doc_section \<Rightarrow> string" where
  "concattedContent sec =
     (case sec_heading sec of
        None \<Rightarrow> sec_content sec
      | Some h \<Rightarrow> if h \<noteq> [] then h @ '' '' @ sec_content sec else sec_content sec)"

definition index_section :: "env \<Rightarrow> nat \<Rightarrow> doc_section \<Rightarrow> unit io" where
  "index_section E pid sec =
     io_bind (generateEmbedding E (concattedContent sec)) (\<lambda>embedding.
     io_bind (create_section E pid sec (snd embedding)) (\<lambda>pageSection.
     write_embedding E (ps_id pageSection) (fst embedding)))"

fun index_sections :: "env \<Rightarrow> nat \<Rightarrow> doc_section list \<Rightarrow> unit io" where
  "index_sections E pid [] = io_return ()"
| "index_sections E pid (sec # secs) =
     io_bind (index_section E pid sec) (\<lambda>u. index_sections E pid secs)"

text \<open>The branch taken when the stored checksum equals the fresh one and no refresh was
  asked for: \<open>existingPage.parentPage?.path !== parentPath\<close> decides whether the parent
  link is looked up and written; then \<open>continue\<close>.\<close>

definition patch_parent :: "env \<Rightarrow> page \<Rightarrow> page option \<Rightarrow> string option \<Rightarrow> unit io" where
  "patch_parent E existingPage parentPage parentPath =
     (if map_option page_path parentPage \<noteq> parentPath
      then io_bind (findUnique E parentPath) (\<lambda>found.
             update_parent E (page_id existingPage) (map_option page_id found))
      else io_return ())"

text \<open>The other branch: delete the old sections, resolve the parent, upsert the page with
  a null checksum, index the sections, set the checksum.\<close>

definition reindex :: "env \<Rightarrow> embedding_source \<Rightarrow> processed_mdx \<Rightarrow> page option \<Rightarrow> unit io" where
  "reindex E src mdx existingPage =
     io_bind (case existingPage of
                None \<Rightarrow> io_return ()
              | Some pg \<Rightarrow> deleteMany E (page_id pg)) (\<lambda>u.
     io_bind (findUnique E (src_parentPath src)) (\<lambda>parentPage.
     io_bind (upsert E (src_path src) ''markdown'' (src_source src) (mdx_meta mdx)
                (map_option page_id parentPage)) (\<lambda>page.
     io_bind (index_sections E (page_id page) (mdx_sections mdx)) (\<lambda>u.
     update_checksum E (page_id page) (mdx_checksum mdx)))))"

text \<open>The \<open>try\<close> block of one iteration.\<close>

definition try_source :: "env \<Rightarrow> bool \<Rightarrow> embedding_source \<Rightarrow> unit io" where
  "try_source E shouldRefresh src =
     io_bind (load E src) (\<lambda>mdx.
     io_bind (findUnique_with_parent E (src_path src)) (\<lambda>existing.
       (case existing of
          Some (existingPage, parentPage) \<Rightarrow>
            if \<not> shouldRefresh \<and> page_checksum existingPage = Some (mdx_checksum mdx)
            then patch_parent E existingPage parentPage (src_parentPath src)
            else reindex E src mdx (Some existingPage)
        | None \<Rightarrow> reindex E src mdx None)))"

text \<open>One iteration: \<open>try { ... } catch (error) { console.error(...) } finally { await
  prisma.$disconnect() }\<close>. The \<open>catch\<close> swallows the failure of the body; a failure of
  the call in \<open>finally\<close> is not caught by anything.\<close>

definition process_source :: "env \<Rightarrow> bool \<Rightarrow> embedding_source \<Rightarrow> unit io" where
  "process_source E shouldRefresh src w =
     (case try_source E shouldRefresh src w of (outcome, w') \<Rightarrow> disconnect E w')"

fun process_sources :: "env \<Rightarrow> bool \<Rightarrow> embedding_source list \<Rightarrow> unit io" where
  "process_sources E shouldRefresh [] = io_return ()"
| "process_sources E shouldRefresh (src # srcs) =
     io_bind (process_source E shouldRefresh src) (\<lambda>u. process_sources E shouldRefresh srcs)"

definition ignoredFiles :: "string list" where
  "ignoredFiles = []"

text \<open>\<open>/\.mdx?$/.test(path)\<close>\<close>

definition is_markdown_path :: "string \<Rightarrow> bool" where
  "is_markdown_path p = (ends_with p ''.md'' \<or> ends_with p ''.mdx'')"

definition discover :: "env \<Rightarrow> (string \<times> fs_node) list \<Rightarrow> embedding_source list" where
  "discover E docs =
     map (\<lambda>entry. MarkdownEmbeddingSource ''guide'' (entry_path entry) (entry_parentPath entry))
       (filter (\<lambda>entry. entry_path entry \<notin> set ignoredFiles)
         (filter (\<lambda>entry. is_markdown_path (entry_path entry))
           (walk E ''docs'' None docs)))"

text \<open>\<open>indexFiles\<close>: \<open>apiKey\<close> is \<open>process.env.OPENAI_API_KEY\<close>, \<open>docs\<close> the content of the
  directory \<open>docs\<close>.\<close>

definition indexFiles :: "env \<Rightarrow> bool \<Rightarrow> string option \<Rightarrow> (string \<times> fs_node) list \<Rightarrow> unit io" where
  "indexFiles E shouldRefresh apiKey docs =
     (if apiKey = None \<or> apiKey = Some [] then (\<lambda>w. (Inl MissingApiKey, w))
      else process_sources E shouldRefresh (discover E docs))"

section \<open>The query endpoint (the route handler GET)\<close>

record result_row =
  row_id :: nat
  row_page_id :: nat
  row_heading :: "string option"
  row_content :: "string option"
  row_similarity :: real
  row_path :: string

datatype response =
    JsonError nat string
  | JsonRows nat "result_row list"

text \<open>
  The SQL of the handler. A section without an embedding has a \<open>NULL\<close> similarity and a
  section without content a \<open>NULL\<close> length; \<open>WHERE\<close> keeps neither. Rows of equal
  similarity come out in table order.
\<close>

definition selected_columns :: "env \<Rightarrow> real list \<Rightarrow> page_section \<Rightarrow> page \<Rightarrow> real list \<Rightarrow> result_row" where
  "selected_columns E q ps p v =
     \<lparr>row_id = ps_id ps, row_page_id = ps_page_id ps, row_heading = ps_heading ps,
      row_content = ps_content ps, row_similarity = 1 - cosine_distance E v q,
      row_path = page_path p\<rparr>"

definition section_rows :: "env \<Rightarrow> real list \<Rightarrow> page list \<Rightarrow> page_section \<Rightarrow> result_row list" where
  "section_rows E q pgs ps =
     (case ps_embedding ps of
        None \<Rightarrow> []
      | Some v \<Rightarrow>
          map (\<lambda>p. selected_columns E q ps p v)
            (filter (\<lambda>p. ps_page_id ps = page_id p) pgs))"

definition joined_rows :: "env \<Rightarrow> real list \<Rightarrow> page list \<Rightarrow> page_section list \<Rightarrow> result_row list" where
  "joined_rows E q pgs secs = concat (map (section_rows E q pgs) secs)"

definition long_enough :: "result_row \<Rightarrow> bool" where
  "long_enough r = (case row_content r of None \<Rightarrow> False | Some c \<Rightarrow> length c > 50)"

definition select_sections :: "env \<Rightarrow> real list \<Rightarrow> page list \<Rightarrow> page_section list \<Rightarrow> result_row list" where
  "select_sections E q pgs secs =
     take 15
       (sort_key (\<lambda>r. - row_similarity r)
         (filter (\<lambda>r. row_similarity r > 1 / 2 \<and> long_enough r) (joined_rows E q pgs secs)))"

definition queryRaw :: "env \<Rightarrow> real list \<Rightarrow> result_row list io" where
  "queryRaw E q =
     call E QuerySections StoreError
       (\<lambda>w. (Inr (select_sections E q (pages w) (page_sections w)), w))"

text \<open>\<open>GET\<close>: \<open>query\<close> is \<open>req.nextUrl.searchParams.get('query')\<close>, absent or a string.\<close>

definition GET :: "env \<Rightarrow> string option \<Rightarrow> world \<Rightarrow> response \<times> world" where
  "GET E query w =
     (case query of
        None \<Rightarrow> (JsonError 400 ''No query provided'', w)
      | Some q \<Rightarrow>
          if q = [] then (JsonError 400 ''No query provided'', w)
          else
            (case io_bind (generateEmbedding E q) (\<lambda>embedding. queryRaw E (fst embedding)) w of
               (Inr context, w') \<Rightarrow> (JsonRows 200 context, w')
             | (Inl error, w') \<Rightarrow> (JsonError 500 ''Something went wrong'', w')))"

section \<open>Notions used to state the properties\<close>

text \<open>The key under which a property is recorded, if it is recorded at all.\<close>

fun key_of :: "property \<Rightarrow> string option" where
  "key_of (Property k v) = property_key k"
| "key_of (SpreadElement e) = None"




text \<open>
  The completion invariant. \<open>complete pid w\<close>: every section row of page \<open>pid\<close> has an
  embedding. \<open>unmarked pid w\<close>: the checksum of page \<open>pid\<close> is null. \<open>store_ok\<close> is what the
  schema of \<open>seed.ts\<close> guarantees: \<open>id\<close> is a primary key drawn from a sequence, and
  \<open>page_id\<close> of a section references a page. \<open>checksum_sound\<close>: a page with a checksum
  is complete.
\<close>

definition complete :: "nat \<Rightarrow> world \<Rightarrow> bool" where
  "complete pid w = (\<forall>s \<in> set (page_sections w). ps_page_id s = pid \<longrightarrow> ps_embedding s \<noteq> None)"

definition unmarked :: "nat \<Rightarrow> world \<Rightarrow> bool" where
  "unmarked pid w = (\<forall>pg \<in> set (pages w). page_id pg = pid \<longrightarrow> page_checksum pg = None)"

definition store_ok :: "world \<Rightarrow> bool" where
  "store_ok w =
     (distinct (map page_id (pages w)) \<and>
      (\<forall>pg \<in> set (pages w). page_id pg < next_page_id w) \<and>
      (\<forall>s \<in> set (page_sections w). ps_page_id s \<in> page_id ` set (pages w)))"

definition checksum_sound :: "world \<Rightarrow> bool" where
  "checksum_sound w =
     (\<forall>pg \<in> set (pages w). page_checksum pg \<noteq> None \<longrightarrow> complete (page_id pg) w)"

definition consistent :: "world \<Rightarrow> bool" where
  "consistent w = (store_ok w \<and> checksum_sound w)"

text \<open>Kinds of calls: the write of a checksum; the calls of the per-section loop; the
  calls a run may make for a document whose content is unchanged (reading, looking
  pages up, and linking page \<open>pid\<close> to its parent).\<close>

fun is_checksum_write :: "event \<Rightarrow> bool" where
  "is_checksum_write (SetChecksum i c) = True"
| "is_checksum_write _ = False"

fun section_call :: "event \<Rightarrow> bool" where
  "section_call (EmbeddingCall t) = True"
| "section_call (CreateSection pid) = True"
| "section_call (WriteEmbedding sid) = True"
| "section_call _ = False"

fun lookup_or_link :: "nat \<Rightarrow> event \<Rightarrow> bool" where
  "lookup_or_link pid (ReadFileCall f) = True"
| "lookup_or_link pid (FindPage p) = True"
| "lookup_or_link pid (UpdateParent i q) = (i = pid)"
| "lookup_or_link pid _ = False"

text \<open>An action that adds calls to the record, none of which writes a checksum.\<close>

definition quiet :: "'a io \<Rightarrow> bool" where
  "quiet m = (\<forall>w r w'. m w = (r, w') \<longrightarrow>
      (\<exists>evs. calls w' = calls w @ evs \<and> (\<forall>ev \<in> set evs. \<not> is_checksum_write ev)))"

text \<open>A page row with its parent link blanked: two tables that agree on these differ
  in parent links only.\<close>

definition without_parent :: "page \<Rightarrow> page" where
  "without_parent pg = pg\<lparr>page_parent_page_id := None\<rparr>"

section \<open>Concrete inputs\<close>

text \<open>
  Inputs on which the definitions are evaluated. \<open>filter_cascade\<close> is what the library
  function \<open>filter\<close> of unist-util-filter does with its default options: a node that fails
  the test goes with its subtree, and a parent that had children and keeps none goes
  too.
\<close>

fun filter_cascade :: "node \<Rightarrow> (node \<Rightarrow> bool) \<Rightarrow> node option" where
  "filter_cascade (Node t e cs v) test =
     (if \<not> test (Node t e cs v) then None
      else
        let kept = concat (map (\<lambda>c. case filter_cascade c test of None \<Rightarrow> [] | Some c' \<Rightarrow> [c']) cs)
        in if cs \<noteq> [] \<and> kept = [] then None else Some (Node t e kept v))"

definition paragraph_node :: "string \<Rightarrow> node" where
  "paragraph_node t = Node ''paragraph'' None [] t"

definition heading_node :: "string \<Rightarrow> node" where
  "heading_node t = Node ''heading'' None [] t"

definition esm_export_meta :: "expression option \<Rightarrow> node" where
  "esm_export_meta init =
     Node ''mdxjsEsm''
       (Some [ExportNamedDeclaration
                (Some (VariableDeclaration [VariableDeclarator (PIdentifier ''meta'') init]))])
       [] []"

text \<open>\<open>export const meta = { title: 'Routing', draft: false, order: 0, related: [...] }\<close>\<close>

definition example_properties :: "property list" where
  "example_properties =
     [Property (Identifier ''title'') (Literal (LString ''Routing'')),
      Property (Identifier ''draft'') (Literal (LBoolean False)),
      Property (Identifier ''order'') (Literal (LNumber 0)),
      Property (Identifier ''related'') OtherExpression]"

definition example_meta_tree :: node where
  "example_meta_tree =
     root [esm_export_meta (Some (ObjectExpression example_properties)),
           heading_node ''Routing'', paragraph_node ''Pages and layouts.'']"

text \<open>\<open>export const meta = { draft: false }\<close>\<close>

definition draft_tree :: node where
  "draft_tree =
     root [esm_export_meta (Some (ObjectExpression
             [Property (Identifier ''draft'') (Literal (LBoolean False))]))]"

text \<open>A cleaned tree: a preamble and two headings.\<close>

definition example_clean_tree :: node where
  "example_clean_tree =
     root [paragraph_node ''Intro.'', heading_node ''Setup'', paragraph_node ''Install it.'',
           heading_node ''Usage'']"

text \<open>An environment in which nothing fails. Vectors are compared by
  \<open>1 - a \<cdot> b\<close>, the cosine distance of vectors of length one; strings are compared
  character by character.\<close>

fun compare_codes :: "string \<Rightarrow> string \<Rightarrow> int" where
  "compare_codes [] [] = 0"
| "compare_codes [] (b # bs) = - 1"
| "compare_codes (a # as) [] = 1"
| "compare_codes (a # as) (b # bs) =
     (if a = b then compare_codes as bs
      else if (of_char a :: nat) < of_char b then - 1 else 1)"

definition example_files :: "(string \<times> string) list" where
  "example_files =
     [(''docs/index.mdx'', ''welcome''),
      (''docs/01-intro.mdx'', ''intro''),
      (''docs/02-empty.mdx'', ''only-meta'')]"

definition example_parses :: "(string \<times> node) list" where
  "example_parses =
     [(''welcome'', root [heading_node ''Welcome'', paragraph_node ''Hello.'']),
      (''intro'', example_clean_tree),
      (''only-meta'', draft_tree)]"

definition example_env :: env where
  "example_env =
     \<lparr>readFile = map_of example_files,
      sha256_base64 = (\<lambda>s. ''sha256-'' @ s),
      fromMarkdown = map_of example_parses,
      unist_filter = filter_cascade,
      toMarkdown = (\<lambda>t. concat (map nvalue (children t))),
      toString = nvalue,
      slugger_slug = (\<lambda>seen h. h),
      embeddings_create = (\<lambda>s. (replicate 1536 0, length s)),
      cosine_distance = (\<lambda>a b. 1 - sum_list (map2 (*) a b)),
      path_join = (\<lambda>d f. d @ ''/'' @ f),
      localeCompare = compare_codes,
      fails = (\<lambda>history ev. False)\<rparr>"


definition empty_world :: world where
  "empty_world =
     \<lparr>pages = [], page_sections = [], next_page_id = 1, next_section_id = 1, calls = []\<rparr>"




text \<open>
  The three documents as embedding sources, and the store as a run over \<open>docs/index.mdx\<close>
  and \<open>docs/01-intro.mdx\<close> leaves it when nothing fails (lemma \<open>indexed_world_reached\<close>
  below): two pages with their checksums, four section rows with embeddings.
\<close>

definition welcome_source :: embedding_source where
  "welcome_source = MarkdownEmbeddingSource ''guide'' ''docs/index.mdx'' (Some ''docs/index.mdx'')"

definition intro_source :: embedding_source where
  "intro_source = MarkdownEmbeddingSource ''guide'' ''docs/01-intro.mdx'' (Some ''docs/index.mdx'')"

definition empty_source :: embedding_source where
  "empty_source = MarkdownEmbeddingSource ''guide'' ''docs/02-empty.mdx'' (Some ''docs/index.mdx'')"

definition index_page :: page where
  "index_page =
     \<lparr>page_id = 1, page_parent_page_id = None, page_path = ''docs/index'',
      page_checksum = Some ''sha256-welcome'', page_meta = None,
      page_type = Some ''markdown'', page_source = Some ''guide''\<rparr>"

definition intro_page :: page where
  "intro_page =
     \<lparr>page_id = 2, page_parent_page_id = Some 1, page_path = ''docs/intro'',
      page_checksum = Some ''sha256-intro'', page_meta = None,
      page_type = Some ''markdown'', page_source = Some ''guide''\<rparr>"

definition stored_section :: "nat \<Rightarrow> nat \<Rightarrow> string \<Rightarrow> nat \<Rightarrow> string option \<Rightarrow> page_section" where
  "stored_section i pid content tokens heading =
     \<lparr>ps_id = i, ps_page_id = pid, ps_content = Some content, ps_token_count = Some tokens,
      ps_embedding = Some (replicate 1536 0), ps_slug = heading, ps_heading = heading\<rparr>"

definition indexed_world :: world where
  "indexed_world =
     \<lparr>pages = [index_page, intro_page],
      page_sections =
        [stored_section 1 1 ''WelcomeHello.'' 21 (Some ''Welcome''),
         stored_section 2 2 ''Intro.'' 6 None,
         stored_section 3 2 ''SetupInstall it.'' 22 (Some ''Setup''),
         stored_section 4 2 ''Usage'' 11 (Some ''Usage'')],
      next_page_id = 3, next_section_id = 5, calls = []\<rparr>"

definition intro_mdx :: processed_mdx where
  "intro_mdx =
     \<lparr>mdx_checksum = ''sha256-intro'', mdx_meta = None,
      mdx_sections =
        [\<lparr>sec_content = ''Intro.'', sec_heading = None, sec_slug = None\<rparr>,
         \<lparr>sec_content = ''SetupInstall it.'', sec_heading = Some ''Setup'', sec_slug = Some ''Setup''\<rparr>,
         \<lparr>sec_content = ''Usage'', sec_heading = Some ''Usage'', sec_slug = Some ''Usage''\<rparr>]\<rparr>"

text \<open>Two environments in which one call fails: the embedding of the second section of
  \<open>docs/01-intro.mdx\<close>, and the lookup of the page \<open>docs/index\<close>.\<close>

definition embedding_fails_env :: env where
  "embedding_fails_env =
     example_env\<lparr>fails := (\<lambda>history ev. ev = EmbeddingCall ''Setup SetupInstall it.'')\<rparr>"

definition parent_lookup_fails_env :: env where
  "parent_lookup_fails_env =
     example_env\<lparr>fails := (\<lambda>history ev. ev = FindPage (Some ''docs/index''))\<rparr>"

section \<open>Properties of formatPath\<close>

lemma formatPath_worked_example:
  "formatPath (''docs'' @ [backslash, backslash] @ ''02-app'' @ [backslash, backslash] @
      ''01-building-your-application'' @ [backslash, backslash] @ ''01-routing'' @
      [backslash, backslash] @ ''08-parallel-routes.mdx'')
   = ''docs/app/building-your-application/routing/parallel-routes''"
  by (simp add: formatPath_def remove_at_end_def ends_with_def is_digit_def backslash_def)

lemma formatPath_single_backslashes:
  "formatPath (''docs'' @ [backslash] @ ''guide'' @ [backslash] @ ''index.mdx'')
   = ''docs'' @ [backslash] @ ''guide''"
  by (simp add: formatPath_def remove_at_end_def ends_with_def is_digit_def backslash_def)

text \<open>
  Claim C4. The claim says that \<open>formatPath\<close> removes a trailing \<open>index\<close> segment and in
  particular that \<open>formatPath("docs/guide/index.mdx")\<close> is \<open>"docs/guide"\<close>; the comment on
  the last \<open>replace\<close> of the source says \<open>Remove trailing /index\<close>. The pattern of that
  call is a backslash followed by \<open>index\<close>, so on a forward-slash path the segment stays:
  the result is \<open>"docs/guide/index"\<close>.
\<close>

theorem formatPath_keeps_slash_index:
  "formatPath ''docs/guide/index.mdx'' = ''docs/guide/index''"
  by (simp add: formatPath_def remove_at_end_def ends_with_def is_digit_def backslash_def)

section \<open>Properties of meta extraction\<close>

lemma map_of_getObject_step:
  "map_of (getObject_step object p) k =
     (if key_of p = Some k
      then Some (case p of Property key v \<Rightarrow> property_value v | SpreadElement e \<Rightarrow> None)
      else map_of object k)"
  by (cases p) (auto simp: update_conv' split: option.splits)

lemma map_of_foldl_other_keys:
  "\<forall>q \<in> set qs. key_of q \<noteq> Some k \<Longrightarrow>
   map_of (foldl getObject_step object qs) k = map_of object k"
  by (induction qs arbitrary: object) (simp_all add: map_of_getObject_step)

lemma getObject_absent_key:
  "\<forall>p \<in> set props. key_of p \<noteq> Some k \<Longrightarrow> map_of (getObjectFromExpression props) k = None"
  by (simp add: getObjectFromExpression_def map_of_foldl_other_keys)

lemma getObject_last_key:
  assumes "props = ps @ Property key v # qs" "property_key key = Some k"
    "\<forall>q \<in> set qs. key_of q \<noteq> Some k"
  shows "map_of (getObjectFromExpression props) k = Some (property_value v)"
  using assms
  by (simp add: getObjectFromExpression_def map_of_foldl_other_keys update_conv')

lemma find_first_match:
  "\<forall>x \<in> set pre. \<not> P x \<Longrightarrow> P nd \<Longrightarrow> find P (pre @ nd # post) = Some nd"
  by (induction pre) simp_all

lemma extract_none:
  assumes "\<forall>nd \<in> set (children tree). \<not> is_meta_export nd"
  shows "extractMetaExport tree = None"
proof -
  from assms have "find is_meta_export (children tree) = None"
    by (simp add: find_None_iff)
  then show ?thesis by (simp add: extractMetaExport_def)
qed

lemma extract_first:
  assumes "children tree = pre @ nd # post" "\<forall>x \<in> set pre. \<not> is_meta_export x"
    "first_declarator nd = Some (VariableDeclarator (PIdentifier ''meta'') init)"
  shows "extractMetaExport tree =
     (case init of Some (ObjectExpression props) \<Rightarrow> Some (getObjectFromExpression props) | _ \<Rightarrow> None)"
proof -
  have "is_meta_export nd" using assms(3) by simp
  then have "find is_meta_export (children tree) = Some nd"
    using assms(1,2) by (simp add: find_first_match)
  then show ?thesis using assms(3)
    by (simp add: extractMetaExport_def split: option.splits expression.splits)
qed

text \<open>
  Claim C6, as stated, says that each property's literal key/value pair is captured,
  the value being a string, a number or a boolean. The source computes the value as
  \<open>(property.value.type === 'Literal' && property.value.value) || undefined\<close>, so a falsy
  literal (\<open>false\<close>, \<open>0\<close>, the empty string) is recorded as \<open>undefined\<close>; the type the source
  gives the result lists \<open>true\<close>, not \<open>boolean\<close>. For \<open>export const meta = { draft: false }\<close>
  the result does not hold the pair \<open>draft: false\<close>.
\<close>

theorem extractMetaExport_false_not_captured:
  "extractMetaExport draft_tree \<noteq> Some [(''draft'', Some (LBoolean False))]"
  by (simp add: draft_tree_def root_def esm_export_meta_def extractMetaExport_def
      getObjectFromExpression_def)

text \<open>
  Claim C6, amended. Meta extraction looks at the first top-level node that is an ESM
  node whose first statement exports a variable declaration whose first declarator is
  the identifier \<open>meta\<close>. The result is absent when there is no such node, and when the
  initialiser of that declarator is not an object expression. Otherwise it is the
  object built from the properties: a key that no property records is absent from it,
  and a key is mapped by the last property recording it to the literal's value when
  the value is a truthy literal and to \<open>undefined\<close> (\<open>None\<close>) when the value is not a
  literal or is a falsy literal. Spread elements and properties whose key is not an
  identifier record nothing.
\<close>

theorem extractMetaExport_characterised:
  "((\<forall>nd \<in> set (children tree). \<not> is_meta_export nd) \<longrightarrow> extractMetaExport tree = None) \<and>
   (children tree = pre @ nd # post \<and> (\<forall>x \<in> set pre. \<not> is_meta_export x) \<and>
    first_declarator nd = Some (VariableDeclarator (PIdentifier ''meta'') init) \<longrightarrow>
      (case init of
         Some (ObjectExpression props) \<Rightarrow>
           extractMetaExport tree = Some (getObjectFromExpression props) \<and>
           (\<forall>k. (\<forall>p \<in> set props. key_of p \<noteq> Some k) \<longrightarrow>
                map_of (getObjectFromExpression props) k = None) \<and>
           (\<forall>k ps key v qs.
              props = ps @ Property key v # qs \<and> property_key key = Some k \<and>
              (\<forall>q \<in> set qs. key_of q \<noteq> Some k) \<longrightarrow>
              map_of (getObjectFromExpression props) k =
                Some (case v of Literal l \<Rightarrow> if truthy l then Some l else None | _ \<Rightarrow> None))
       | _ \<Rightarrow> extractMetaExport tree = None))"
proof (intro conjI impI)
  assume "\<forall>nd \<in> set (children tree). \<not> is_meta_export nd"
  then show "extractMetaExport tree = None" by (rule extract_none)
next
  assume a: "children tree = pre @ nd # post \<and> (\<forall>x \<in> set pre. \<not> is_meta_export x) \<and>
    first_declarator nd = Some (VariableDeclarator (PIdentifier ''meta'') init)"
  have pv: "property_value v = (case v of Literal l \<Rightarrow> if truthy l then Some l else None | _ \<Rightarrow> None)"
    for v by (cases v) simp_all
  from a have e: "extractMetaExport tree =
     (case init of Some (ObjectExpression props) \<Rightarrow> Some (getObjectFromExpression props) | _ \<Rightarrow> None)"
    using extract_first by blast
  show "case init of
         Some (ObjectExpression props) \<Rightarrow>
           extractMetaExport tree = Some (getObjectFromExpression props) \<and>
           (\<forall>k. (\<forall>p \<in> set props. key_of p \<noteq> Some k) \<longrightarrow>
                map_of (getObjectFromExpression props) k = None) \<and>
           (\<forall>k ps key v qs.
              props = ps @ Property key v # qs \<and> property_key key = Some k \<and>
              (\<forall>q \<in> set qs. key_of q \<noteq> Some k) \<longrightarrow>
              map_of (getObjectFromExpression props) k =
                Some (case v of Literal l \<Rightarrow> if truthy l then Some l else None | _ \<Rightarrow> None))
       | _ \<Rightarrow> extractMetaExport tree = None"
  proof (cases init)
    case None
    with e show ?thesis by simp
  next
    case (Some ex)
    show ?thesis
    proof (cases ex)
      case (ObjectExpression props)
      with Some e show ?thesis
        using getObject_absent_key getObject_last_key pv by (auto simp del: property_value.simps)
    qed (use Some e in simp_all)
  qed
qed

theorem extractMetaExport_characterised_witness:
  "extractMetaExport example_meta_tree = Some (getObjectFromExpression example_properties) \<and>
   map_of (getObjectFromExpression example_properties) ''title'' = Some (Some (LString ''Routing'')) \<and>
   map_of (getObjectFromExpression example_properties) ''draft'' = Some None \<and>
   map_of (getObjectFromExpression example_properties) ''related'' = Some None \<and>
   map_of (getObjectFromExpression example_properties) ''author'' = None"
proof -
  let ?nd = "esm_export_meta (Some (ObjectExpression example_properties))"
  have c: "children example_meta_tree = [] @ ?nd # [heading_node ''Routing'', paragraph_node ''Pages and layouts.'']"
    by (simp add: example_meta_tree_def root_def)
  have d: "first_declarator ?nd =
      Some (VariableDeclarator (PIdentifier ''meta'') (Some (ObjectExpression example_properties)))"
    by (simp add: esm_export_meta_def)
  from extractMetaExport_characterised
        [of example_meta_tree "[]" ?nd "[heading_node ''Routing'', paragraph_node ''Pages and layouts.'']"
           "Some (ObjectExpression example_properties)"] c d
  have r: "extractMetaExport example_meta_tree = Some (getObjectFromExpression example_properties)"
    and absent: "\<forall>k. (\<forall>p \<in> set example_properties. key_of p \<noteq> Some k) \<longrightarrow>
                map_of (getObjectFromExpression example_properties) k = None"
    and present: "\<forall>k ps key v qs.
              example_properties = ps @ Property key v # qs \<and> property_key key = Some k \<and>
              (\<forall>q \<in> set qs. key_of q \<noteq> Some k) \<longrightarrow>
              map_of (getObjectFromExpression example_properties) k =
                Some (case v of Literal l \<Rightarrow> if truthy l then Some l else None | _ \<Rightarrow> None)"
    by simp_all
  have t: "map_of (getObjectFromExpression example_properties) ''title'' = Some (Some (LString ''Routing''))"
    using present [rule_format, of "[]" "Identifier ''title''" "Literal (LString ''Routing'')"
        "tl example_properties" "''title''"]
    by (simp add: example_properties_def)
  have dr: "map_of (getObjectFromExpression example_properties) ''draft'' = Some None"
    using present [rule_format, of "take 1 example_properties" "Identifier ''draft''" "Literal (LBoolean False)"
        "drop 2 example_properties" "''draft''"]
    by (simp add: example_properties_def)
  have re: "map_of (getObjectFromExpression example_properties) ''related'' = Some None"
    using present [rule_format, of "take 3 example_properties" "Identifier ''related''" OtherExpression
        "[]" "''related''"]
    by (simp add: example_properties_def)
  have au: "map_of (getObjectFromExpression example_properties) ''author'' = None"
    using absent [THEN spec, of "''author''"] by (simp add: example_properties_def)
  from r t dr re au show ?thesis by simp
qed

section \<open>Properties of segmentation\<close>

















section \<open>Properties of the query endpoint\<close>












text \<open>
  Claim C9. When the query is absent or empty the handler answers with status 400 and
  the world is as it was: no call was recorded, neither to the embedding service nor
  to the store.
\<close>

theorem GET_rejects_missing_query:
  assumes "query = None \<or> query = Some []"
  shows "GET E query w = (JsonError 400 ''No query provided'', w) \<and>
         calls (snd (GET E query w)) = calls w"
  using assms by (auto simp: GET_def)

theorem GET_rejects_missing_query_witness:
  "GET example_env None empty_world = (JsonError 400 ''No query provided'', empty_world) \<and>
   GET example_env (Some []) empty_world = (JsonError 400 ''No query provided'', empty_world)"
  using GET_rejects_missing_query [of None example_env empty_world]
    GET_rejects_missing_query [of "Some []" example_env empty_world]
  by simp

section \<open>Properties of the document walker\<close>












section \<open>Properties of the sync engine: the store operations and the invariant\<close>

lemma calls_irrelevant [simp]:
  "complete pid (w\<lparr>calls := c\<rparr>) = complete pid w"
  "unmarked pid (w\<lparr>calls := c\<rparr>) = unmarked pid w"
  "store_ok (w\<lparr>calls := c\<rparr>) = store_ok w"
  "checksum_sound (w\<lparr>calls := c\<rparr>) = checksum_sound w"
  "consistent (w\<lparr>calls := c\<rparr>) = consistent w"
  "page_by_path (w\<lparr>calls := c\<rparr>) p = page_by_path w p"
  "page_by_id (w\<lparr>calls := c\<rparr>) i = page_by_id w i"
  by (simp_all add: complete_def unmarked_def store_ok_def checksum_sound_def consistent_def
      page_by_path_def page_by_id_def)

lemma page_by_id_mem: "page_by_id w i = Some pg \<Longrightarrow> pg \<in> set (pages w) \<and> page_id pg = i"
  unfolding page_by_id_def by (auto simp: find_Some_iff)

lemma page_by_path_mem: "page_by_path w p = Some pg \<Longrightarrow> pg \<in> set (pages w) \<and> page_path pg = p"
  unfolding page_by_path_def by (auto simp: find_Some_iff)

lemma page_by_path_None: "page_by_path w p = None \<Longrightarrow> \<forall>pg \<in> set (pages w). page_path pg \<noteq> p"
  unfolding page_by_path_def by (auto simp: find_None_iff)

lemma findUnique_frame:
  "findUnique E p w = (r, w') \<Longrightarrow> w' = w\<lparr>calls := calls w @ [FindPage p]\<rparr> \<and>
     (r = Inl StoreError \<or> r = Inr (case p of None \<Rightarrow> None | Some q \<Rightarrow> page_by_path w q))"
  by (cases p) (auto simp: findUnique_def call_def Let_def split: if_splits)

lemma findUnique_with_parent_frame:
  "findUnique_with_parent E p w = (r, w') \<Longrightarrow> w' = w\<lparr>calls := calls w @ [FindPage (Some p)]\<rparr> \<and>
     (r = Inl StoreError \<or> r = Inr (map_option (\<lambda>pg. (pg, parentPage_of w pg)) (page_by_path w p)))"
  by (cases "page_by_path w p")
     (auto simp: findUnique_with_parent_def call_def Let_def parentPage_of_def
        split: if_splits option.splits)

lemma generateEmbedding_frame:
  "generateEmbedding E t w = (r, w') \<Longrightarrow> \<exists>c. w' = w\<lparr>calls := c\<rparr>"
  by (auto simp: generateEmbedding_def call_def Let_def io_return_def split: if_splits)

lemma load_frame:
  "load E src w = (r, w') \<Longrightarrow> w' = w\<lparr>calls := calls w @ [ReadFileCall (src_filePath src)]\<rparr>"
  by (auto simp: load_def Let_def split: option.splits sum.splits)

lemma disconnect_frame:
  "disconnect E w = (r, w') \<Longrightarrow> w' = w\<lparr>calls := calls w @ [Disconnect]\<rparr>"
  by (auto simp: disconnect_def call_def Let_def io_return_def split: if_splits)

lemma consistent_pages_map:
  assumes c: "consistent w"
    and id: "\<And>pg. page_id (f pg) = page_id pg"
    and cs: "\<And>pg. pg \<in> set (pages w) \<Longrightarrow> page_checksum (f pg) \<noteq> None \<Longrightarrow> complete (page_id pg) w"
  shows "consistent (w\<lparr>pages := map f (pages w)\<rparr>)"
proof -
  have o: "page_id \<circ> f = page_id" by (rule ext) (simp add: id)
  have i: "page_id ` f ` set (pages w) = page_id ` set (pages w)"
    by (simp add: image_comp o)
  have s: "store_ok (w\<lparr>pages := map f (pages w)\<rparr>)"
    using c unfolding consistent_def store_ok_def by (simp add: o i id)
  have k: "complete pid (w\<lparr>pages := map f (pages w)\<rparr>) = complete pid w" for pid
    by (simp add: complete_def)
  have "checksum_sound (w\<lparr>pages := map f (pages w)\<rparr>)"
    unfolding checksum_sound_def using cs id by (auto simp: k)
  with s show ?thesis by (simp add: consistent_def)
qed

lemma consistent_sound: "consistent w \<Longrightarrow> pg \<in> set (pages w) \<Longrightarrow> page_checksum pg \<noteq> None
   \<Longrightarrow> complete (page_id pg) w"
  by (simp add: consistent_def checksum_sound_def)

lemma deleteMany_consistent:
  assumes "deleteMany E pid w = (r, w')" "consistent w"
  shows "consistent w' \<and> pages w' = pages w \<and> next_page_id w' = next_page_id w \<and>
         (r = Inr () \<longrightarrow> (\<forall>s \<in> set (page_sections w'). ps_page_id s \<noteq> pid))"
  using assms
  by (auto simp: deleteMany_def call_def Let_def consistent_def store_ok_def checksum_sound_def
      complete_def split: if_splits)

lemma update_parent_consistent:
  assumes "update_parent E i q w = (r, w')" "consistent w"
  shows "consistent w'"
proof -
  let ?w1 = "w\<lparr>calls := calls w @ [UpdateParent i q]\<rparr>"
  have c1: "consistent ?w1" using assms(2) by simp
  show ?thesis
  proof (cases "fails E (calls w) (UpdateParent i q) \<or> page_by_id w i = None \<or> q = None")
    case True
    with assms c1 show ?thesis
      by (auto simp: update_parent_def call_def Let_def split: if_splits option.splits)
  next
    case False
    then obtain found p where f: "page_by_id w i = Some found" "q = Some p" by auto
    let ?f = "\<lambda>pg. if page_id pg = i then pg\<lparr>page_parent_page_id := Some p\<rparr> else pg"
    from False f assms(1) have w': "w' = ?w1\<lparr>pages := map ?f (pages ?w1)\<rparr>"
      by (simp add: update_parent_def call_def Let_def)
    have "consistent (?w1\<lparr>pages := map ?f (pages ?w1)\<rparr>)"
    proof (rule consistent_pages_map [OF c1])
      fix pg show "page_id (?f pg) = page_id pg" by simp
    next
      fix pg assume "pg \<in> set (pages ?w1)" "page_checksum (?f pg) \<noteq> None"
      then have "pg \<in> set (pages w)" "page_checksum pg \<noteq> None" by (auto split: if_splits)
      then show "complete (page_id pg) ?w1" using consistent_sound [OF assms(2)] by simp
    qed
    with w' show ?thesis by simp
  qed
qed

lemma update_checksum_consistent:
  assumes "update_checksum E i c w = (r, w')" "consistent w" "complete i w"
  shows "consistent w'"
proof -
  let ?w1 = "w\<lparr>calls := calls w @ [SetChecksum i c]\<rparr>"
  have c1: "consistent ?w1" using assms(2) by simp
  show ?thesis
  proof (cases "fails E (calls w) (SetChecksum i c) \<or> page_by_id w i = None")
    case True
    with assms c1 show ?thesis
      by (auto simp: update_checksum_def call_def Let_def split: if_splits option.splits)
  next
    case False
    then obtain found where f: "page_by_id w i = Some found" by auto
    let ?f = "\<lambda>pg. if page_id pg = i then pg\<lparr>page_checksum := Some c\<rparr> else pg"
    from False f assms(1) have w': "w' = ?w1\<lparr>pages := map ?f (pages ?w1)\<rparr>"
      by (simp add: update_checksum_def call_def Let_def)
    have "consistent (?w1\<lparr>pages := map ?f (pages ?w1)\<rparr>)"
    proof (rule consistent_pages_map [OF c1])
      fix pg show "page_id (?f pg) = page_id pg" by simp
    next
      fix pg assume a: "pg \<in> set (pages ?w1)" "page_checksum (?f pg) \<noteq> None"
      show "complete (page_id pg) ?w1"
      proof (cases "page_id pg = i")
        case True
        with assms(3) show ?thesis by simp
      next
        case False
        with a have "pg \<in> set (pages w)" "page_checksum pg \<noteq> None" by auto
        then show ?thesis using consistent_sound [OF assms(2)] by simp
      qed
    qed
    with w' show ?thesis by simp
  qed
qed

lemma consistent_add_page:
  assumes c: "consistent w" and n: "page_checksum new = None" "page_id new = next_page_id w"
  shows "consistent (w\<lparr>pages := pages w @ [new], next_page_id := Suc (next_page_id w)\<rparr>)"
proof -
  let ?w' = "w\<lparr>pages := pages w @ [new], next_page_id := Suc (next_page_id w)\<rparr>"
  from c have so: "store_ok w" and cs: "checksum_sound w" by (simp_all add: consistent_def)
  have fresh: "\<forall>pg \<in> set (pages w). page_id pg \<noteq> next_page_id w"
    using so by (auto simp: store_ok_def)
  have s': "store_ok ?w'"
    using so fresh n(2) unfolding store_ok_def by (auto simp: less_Suc_eq)
  have k: "complete pid ?w' = complete pid w" for pid by (simp add: complete_def)
  have "checksum_sound ?w'"
    unfolding checksum_sound_def k using cs n(1) by (auto simp: checksum_sound_def)
  with s' show ?thesis by (simp add: consistent_def)
qed

lemma upsert_created:
  assumes u: "upsert E path type source meta par w = (r, w')" and c: "consistent w"
    and nf: "\<not> fails E (calls w) (UpsertPage path)" and no: "page_by_path w path = None"
  shows "consistent w' \<and> page_sections w' = page_sections w \<and>
     (\<exists>pg. r = Inr pg \<and> unmarked (page_id pg) w' \<and> page_checksum pg = None \<and>
        page_by_id w' (page_id pg) \<noteq> None \<and> page_id pg = next_page_id w)"
proof -
  let ?w1 = "w\<lparr>calls := calls w @ [UpsertPage path]\<rparr>"
  let ?new = "\<lparr>page_id = next_page_id w, page_parent_page_id = par, page_path = path,
               page_checksum = None, page_meta = meta, page_type = Some type,
               page_source = Some source\<rparr>"
  from nf no u have r: "r = Inr ?new"
    and w': "w' = ?w1\<lparr>pages := pages ?w1 @ [?new], next_page_id := Suc (next_page_id ?w1)\<rparr>"
    by (simp_all add: upsert_def call_def Let_def)
  have c1: "consistent ?w1" using c by simp
  have cw': "consistent w'" unfolding w' by (rule consistent_add_page [OF c1]) simp_all
  from c have "\<forall>pg \<in> set (pages w). page_id pg \<noteq> next_page_id w"
    by (auto simp: consistent_def store_ok_def)
  then have um: "unmarked (next_page_id w) w'" by (auto simp: unmarked_def w')
  have "?new \<in> set (pages w')" unfolding w' by simp
  moreover have "page_id ?new = next_page_id w" by simp
  ultimately have found: "page_by_id w' (next_page_id w) \<noteq> None"
    unfolding page_by_id_def find_None_iff by blast
  have sec: "page_sections w' = page_sections w" by (simp add: w')
  from cw' um found sec r show ?thesis by simp
qed

lemma upsert_updated:
  assumes u: "upsert E path type source meta par w = (r, w')" and c: "consistent w"
    and nf: "\<not> fails E (calls w) (UpsertPage path)" and ex: "page_by_path w path = Some ex"
  shows "consistent w' \<and> page_sections w' = page_sections w \<and>
     (\<exists>pg. r = Inr pg \<and> unmarked (page_id pg) w' \<and> page_checksum pg = None \<and>
        page_by_id w' (page_id pg) \<noteq> None \<and> page_id pg = page_id ex)"
proof -
  let ?w1 = "w\<lparr>calls := calls w @ [UpsertPage path]\<rparr>"
  let ?f = "\<lambda>pg. if page_path pg = path then upsert_update path type source meta par pg else pg"
  have c1: "consistent ?w1" using c by simp
  from nf ex u have r: "r = Inr (upsert_update path type source meta par ex)"
    and w': "w' = ?w1\<lparr>pages := map ?f (pages ?w1)\<rparr>"
    by (simp_all add: upsert_def call_def Let_def)
  have id: "page_id (?f pg) = page_id pg" for pg by (simp add: upsert_update_def)
  have "consistent (?w1\<lparr>pages := map ?f (pages ?w1)\<rparr>)"
  proof (rule consistent_pages_map [OF c1 id])
    fix pg assume a: "pg \<in> set (pages ?w1)" "page_checksum (?f pg) \<noteq> None"
    from a(2) have "page_path pg \<noteq> path" by (auto simp: upsert_update_def split: if_splits)
    with a have "pg \<in> set (pages w)" "page_checksum pg \<noteq> None" by simp_all
    then show "complete (page_id pg) ?w1" using consistent_sound [OF c] by simp
  qed
  then have cw': "consistent w'" by (simp add: w')
  have exm: "ex \<in> set (pages w)" "page_path ex = path" using page_by_path_mem [OF ex] by simp_all
  from c have d: "distinct (map page_id (pages w))" by (simp add: consistent_def store_ok_def)
  have um: "unmarked (page_id ex) w'"
    unfolding unmarked_def
  proof (intro ballI impI)
    fix pg assume pg: "pg \<in> set (pages w')" "page_id pg = page_id ex"
    from pg(1) obtain pg0 where pg0: "pg0 \<in> set (pages w)" "pg = ?f pg0"
      unfolding w' by auto
    from pg(2) pg0(2) id [of pg0] have "page_id pg0 = page_id ex" by simp
    with d pg0(1) exm(1) have "pg0 = ex" by (simp add: distinct_map inj_on_def)
    with pg0(2) exm(2) show "page_checksum pg = None" by (simp add: upsert_update_def)
  qed
  have "?f ex \<in> set (pages w')" using exm(1) unfolding w' by simp
  moreover have "page_id (?f ex) = page_id ex" by (rule id)
  ultimately have found: "page_by_id w' (page_id ex) \<noteq> None"
    unfolding page_by_id_def find_None_iff by blast
  have sec: "page_sections w' = page_sections w" by (simp add: w')
  have "page_checksum (upsert_update path type source meta par ex) = None"
    "page_id (upsert_update path type source meta par ex) = page_id ex"
    by (simp_all add: upsert_update_def)
  with cw' um found sec r show ?thesis by simp
qed

lemma upsert_failed:
  assumes u: "upsert E path type source meta par w = (r, w')"
    and f: "fails E (calls w) (UpsertPage path)"
  shows "w' = w\<lparr>calls := calls w @ [UpsertPage path]\<rparr> \<and> r = Inl StoreError"
  using u f by (simp add: upsert_def call_def Let_def)

lemma io_bind_cases:
  assumes "io_bind m k w = (r, w')"
  obtains (failed) e where "m w = (Inl e, w')" "r = Inl e"
        | (went_on) a w1 where "m w = (Inr a, w1)" "k a w1 = (r, w')"
  using assms unfolding io_bind_def by (auto split: prod.splits sum.splits)

lemma consistent_sections_map:
  assumes c: "consistent w"
    and id: "\<And>s. ps_page_id (f s) = ps_page_id s"
    and em: "\<And>s. ps_embedding s \<noteq> None \<Longrightarrow> ps_embedding (f s) \<noteq> None"
  shows "consistent (w\<lparr>page_sections := map f (page_sections w)\<rparr>)"
proof -
  let ?w' = "w\<lparr>page_sections := map f (page_sections w)\<rparr>"
  from c have so: "store_ok w" and cs: "checksum_sound w" by (simp_all add: consistent_def)
  have s': "store_ok ?w'" using so unfolding store_ok_def by (auto simp: id)
  have k: "complete pid w \<Longrightarrow> complete pid ?w'" for pid
    unfolding complete_def using id em by auto
  have "checksum_sound ?w'" using cs k unfolding checksum_sound_def by auto
  with s' show ?thesis by (simp add: consistent_def)
qed

lemma create_section_step:
  assumes cr: "create_section E pid sec tok w = (r, w')" and c: "consistent w" and um: "unmarked pid w"
  shows "consistent w' \<and> unmarked pid w' \<and> pages w' = pages w \<and>
     (case r of
        Inl e \<Rightarrow> page_sections w' = page_sections w
      | Inr row \<Rightarrow> ps_page_id row = pid \<and> ps_embedding row = None \<and>
                   page_sections w' = page_sections w @ [row])"
proof -
  let ?w1 = "w\<lparr>calls := calls w @ [CreateSection pid]\<rparr>"
  show ?thesis
  proof (cases "fails E (calls w) (CreateSection pid) \<or> page_by_id w pid = None")
    case True
    with cr c um show ?thesis
      by (auto simp: create_section_def call_def Let_def split: if_splits option.splits)
  next
    case False
    then obtain pg where pg: "page_by_id w pid = Some pg" by auto
    let ?row = "\<lparr>ps_id = next_section_id w, ps_page_id = pid, ps_content = Some (sec_content sec),
                 ps_token_count = Some tok, ps_embedding = None, ps_slug = sec_slug sec,
                 ps_heading = sec_heading sec\<rparr>"
    from False pg cr have r: "r = Inr ?row"
      and w': "w' = ?w1\<lparr>page_sections := page_sections w @ [?row],
                         next_section_id := Suc (next_section_id w)\<rparr>"
      by (simp_all add: create_section_def call_def Let_def)
    from c have so: "store_ok w" and cs: "checksum_sound w" by (simp_all add: consistent_def)
    from page_by_id_mem [OF pg] have "pid \<in> page_id ` set (pages w)" by blast
    with so have s': "store_ok w'" unfolding store_ok_def w' by auto
    have "checksum_sound w'"
      unfolding checksum_sound_def
    proof (intro ballI impI)
      fix p assume p: "p \<in> set (pages w')" "page_checksum p \<noteq> None"
      then have pw: "p \<in> set (pages w)" by (simp add: w')
      with p(2) um have "page_id p \<noteq> pid" by (auto simp: unmarked_def)
      moreover from cs pw p(2) have "complete (page_id p) w" by (simp add: checksum_sound_def)
      ultimately show "complete (page_id p) w'" by (auto simp: complete_def w')
    qed
    with s' have "consistent w'" by (simp add: consistent_def)
    moreover have "unmarked pid w'" using um by (simp add: unmarked_def w')
    ultimately show ?thesis using r by (simp add: w')
  qed
qed

lemma write_embedding_step:
  assumes wr: "write_embedding E sid v w = (r, w')" and c: "consistent w"
  shows "consistent w' \<and> pages w' = pages w \<and>
     (case r of
        Inl e \<Rightarrow> page_sections w' = page_sections w
      | Inr u \<Rightarrow> page_sections w' =
          map (\<lambda>s. if ps_id s = sid then s\<lparr>ps_embedding := Some v\<rparr> else s) (page_sections w))"
proof -
  let ?w1 = "w\<lparr>calls := calls w @ [WriteEmbedding sid]\<rparr>"
  let ?f = "\<lambda>s. if ps_id s = sid then s\<lparr>ps_embedding := Some v\<rparr> else s"
  have c1: "consistent ?w1" using c by simp
  show ?thesis
  proof (cases "fails E (calls w) (WriteEmbedding sid) \<or> length v \<noteq> 1536")
    case True
    with wr c show ?thesis
      by (auto simp: write_embedding_def call_def Let_def split: if_splits)
  next
    case False
    with wr have r: "r = Inr ()" and w': "w' = ?w1\<lparr>page_sections := map ?f (page_sections ?w1)\<rparr>"
      by (simp_all add: write_embedding_def call_def Let_def)
    have "consistent (?w1\<lparr>page_sections := map ?f (page_sections ?w1)\<rparr>)"
      by (rule consistent_sections_map [OF c1]) simp_all
    with r show ?thesis by (simp add: w')
  qed
qed

lemma index_section_step:
  assumes ix: "index_section E pid sec w = (r, w')" and c: "consistent w"
    and um: "unmarked pid w" and co: "complete pid w"
  shows "consistent w' \<and> unmarked pid w' \<and> pages w' = pages w \<and> (r = Inr () \<longrightarrow> complete pid w')"
  using ix unfolding index_section_def
proof (cases rule: io_bind_cases)
  case (failed e)
  from generateEmbedding_frame [OF failed(1)] c um failed(2) show ?thesis by auto
next
  case (went_on emb w1)
  from generateEmbedding_frame [OF went_on(1)] obtain cs where w1: "w1 = w\<lparr>calls := cs\<rparr>" by blast
  with c um co have c1: "consistent w1" "unmarked pid w1" "complete pid w1" by simp_all
  from went_on(2) show ?thesis
  proof (cases rule: io_bind_cases)
    case (failed e)
    from create_section_step [OF failed(1) c1(1,2)] failed(2) w1 show ?thesis by simp
  next
    case (went_on row w2)
    from create_section_step [OF went_on(1) c1(1,2)]
    have c2: "consistent w2" "unmarked pid w2" "pages w2 = pages w1"
      "ps_page_id row = pid" "page_sections w2 = page_sections w1 @ [row]" by simp_all
    from write_embedding_step [OF went_on(2) c2(1)]
    have c3: "consistent w'" "pages w' = pages w2"
      "case r of Inl e \<Rightarrow> page_sections w' = page_sections w2
       | Inr u \<Rightarrow> page_sections w' =
          map (\<lambda>s. if ps_id s = ps_id row then s\<lparr>ps_embedding := Some (fst emb)\<rparr> else s) (page_sections w2)"
      by simp_all
    have um': "unmarked pid w'" using c2(2) c3(2) by (simp add: unmarked_def)
    have "r = Inr () \<longrightarrow> complete pid w'"
    proof
      assume "r = Inr ()"
      with c3(3) c2(5) have "page_sections w' =
          map (\<lambda>s. if ps_id s = ps_id row then s\<lparr>ps_embedding := Some (fst emb)\<rparr> else s)
            (page_sections w1 @ [row])" by simp
      then show "complete pid w'" using c1(3) unfolding complete_def by auto
    qed
    with c3(1,2) c2(3) um' w1 show ?thesis by simp
  qed
qed

lemma index_sections_loop:
  assumes "index_sections E pid secs w = (r, w')" "consistent w" "unmarked pid w" "complete pid w"
  shows "consistent w' \<and> unmarked pid w' \<and> pages w' = pages w \<and> (r = Inr () \<longrightarrow> complete pid w')"
  using assms
proof (induction secs arbitrary: w)
  case Nil
  then show ?case by (simp add: io_return_def)
next
  case (Cons sec secs)
  from Cons.prems(1) have "io_bind (index_section E pid sec) (\<lambda>u. index_sections E pid secs) w = (r, w')"
    by simp
  then show ?case
  proof (cases rule: io_bind_cases)
    case (failed e)
    from index_section_step [OF failed(1) Cons.prems(2-4)] failed(2) show ?thesis by simp
  next
    case (went_on a w1)
    from index_section_step [OF went_on(1) Cons.prems(2-4)]
    have s: "consistent w1" "unmarked pid w1" "pages w1 = pages w" "complete pid w1" by simp_all
    from Cons.IH [OF went_on(2) s(1,2,4)] s(3) show ?thesis by simp
  qed
qed

lemma page_by_path_pages: "pages w1 = pages w \<Longrightarrow> page_by_path w1 p = page_by_path w p"
  by (simp add: page_by_path_def)

lemma no_sections_complete: "\<forall>s \<in> set (page_sections w). ps_page_id s \<noteq> pid \<Longrightarrow> complete pid w"
  by (simp add: complete_def)

lemma fresh_id_complete: "store_ok w \<Longrightarrow> complete (next_page_id w) w"
  unfolding store_ok_def complete_def by fastforce

lemma reindex_consistent:
  assumes re: "reindex E src mdx ex w = (r, w')" and c: "consistent w"
    and ex: "ex = page_by_path w (src_path src)"
  shows "consistent w'"
  using re unfolding reindex_def
proof (cases rule: io_bind_cases)
  case (failed e)
  show ?thesis
  proof (cases ex)
    case None
    with failed show ?thesis by (simp add: io_return_def)
  next
    case (Some pg)
    with failed deleteMany_consistent [OF _ c] show ?thesis by simp
  qed
next
  case (went_on u w1)
  have s1: "consistent w1 \<and> pages w1 = pages w \<and> next_page_id w1 = next_page_id w \<and>
      (\<forall>pg. ex = Some pg \<longrightarrow> (\<forall>s \<in> set (page_sections w1). ps_page_id s \<noteq> page_id pg))"
  proof (cases ex)
    case None
    with went_on(1) c show ?thesis by (simp add: io_return_def)
  next
    case (Some pg)
    with went_on(1) deleteMany_consistent [OF _ c, of E "page_id pg" "Inr u" w1] show ?thesis by simp
  qed
  from went_on(2) show ?thesis
  proof (cases rule: io_bind_cases)
    case (failed e)
    from findUnique_frame [OF failed(1)] s1 show ?thesis by simp
  next
    case (went_on parentPage w2)
    from findUnique_frame [OF went_on(1)] have w2: "w2 = w1\<lparr>calls := calls w1 @ [FindPage (src_parentPath src)]\<rparr>"
      by simp
    with s1 have c2: "consistent w2" "pages w2 = pages w" "page_sections w2 = page_sections w1"
      "next_page_id w2 = next_page_id w" by simp_all
    have ex2: "page_by_path w2 (src_path src) = ex"
      using page_by_path_pages [OF c2(2), of "src_path src"] ex by simp
    from went_on(2) show ?thesis
    proof (cases rule: io_bind_cases)
      case (failed e)
      show ?thesis
      proof (cases "fails E (calls w2) (UpsertPage (src_path src))")
        case True
        from upsert_failed [OF failed(1) True] c2(1) show ?thesis by simp
      next
        case nf: False
        show ?thesis
        proof (cases ex)
          case None
          with upsert_created [OF failed(1) c2(1) nf] ex2 show ?thesis by simp
        next
          case (Some pg)
          with upsert_updated [OF failed(1) c2(1) nf] ex2 show ?thesis by simp
        qed
      qed
    next
      case (went_on page w3)
      have nf: "\<not> fails E (calls w2) (UpsertPage (src_path src))"
        using upsert_failed [OF went_on(1)] by auto
      have s3: "consistent w3 \<and> unmarked (page_id page) w3 \<and> complete (page_id page) w3"
      proof (cases ex)
        case None
        with upsert_created [OF went_on(1) c2(1) nf] ex2
        have u: "consistent w3" "page_sections w3 = page_sections w2" "unmarked (page_id page) w3"
          "page_id page = next_page_id w2" by auto
        from c2(1) have "complete (next_page_id w2) w2"
          by (simp add: consistent_def fresh_id_complete)
        with u(2,4) have "complete (page_id page) w3" by (simp add: complete_def)
        with u show ?thesis by simp
      next
        case (Some pg)
        with upsert_updated [OF went_on(1) c2(1) nf] ex2
        have u: "consistent w3" "page_sections w3 = page_sections w2" "unmarked (page_id page) w3"
          "page_id page = page_id pg" by auto
        from s1 Some have "\<forall>s \<in> set (page_sections w1). ps_page_id s \<noteq> page_id pg" by simp
        with u(2,4) c2(3) have "complete (page_id page) w3" by (simp add: complete_def)
        with u show ?thesis by simp
      qed
      from went_on(2) show ?thesis
      proof (cases rule: io_bind_cases)
        case (failed e)
        from index_sections_loop [OF failed(1)] s3 show ?thesis by simp
      next
        case (went_on u4 w4)
        from index_sections_loop [OF went_on(1)] s3
        have s4: "consistent w4" "complete (page_id page) w4" by simp_all
        from update_checksum_consistent [OF went_on(2) s4] show ?thesis .
      qed
    qed
  qed
qed

lemma patch_parent_consistent:
  assumes pp: "patch_parent E existingPage parentPage parentPath w = (r, w')" and c: "consistent w"
  shows "consistent w'"
proof (cases "map_option page_path parentPage \<noteq> parentPath")
  case False
  with pp c show ?thesis by (simp add: patch_parent_def io_return_def)
next
  case True
  with pp have "io_bind (findUnique E parentPath) (\<lambda>found.
             update_parent E (page_id existingPage) (map_option page_id found)) w = (r, w')"
    by (simp add: patch_parent_def)
  then show ?thesis
  proof (cases rule: io_bind_cases)
    case (failed e)
    from findUnique_frame [OF failed(1)] c show ?thesis by simp
  next
    case (went_on found w1)
    from findUnique_frame [OF went_on(1)] c have "consistent w1" by simp
    from update_parent_consistent [OF went_on(2) this] show ?thesis .
  qed
qed

lemma try_source_consistent:
  assumes ts: "try_source E shouldRefresh src w = (r, w')" and c: "consistent w"
  shows "consistent w'"
  using ts unfolding try_source_def
proof (cases rule: io_bind_cases)
  case (failed e)
  from load_frame [OF failed(1)] c show ?thesis by simp
next
  case (went_on mdx w1)
  from load_frame [OF went_on(1)] c have c1: "consistent w1" by simp
  from went_on(2) show ?thesis
  proof (cases rule: io_bind_cases)
    case (failed e)
    from findUnique_with_parent_frame [OF failed(1)] c1 show ?thesis by simp
  next
    case (went_on existing w2)
    from findUnique_with_parent_frame [OF went_on(1)]
    have w2: "w2 = w1\<lparr>calls := calls w1 @ [FindPage (Some (src_path src))]\<rparr>"
      and ex: "existing = map_option (\<lambda>pg. (pg, parentPage_of w1 pg)) (page_by_path w1 (src_path src))"
      by auto
    from w2 c1 have c2: "consistent w2" by simp
    have p2: "page_by_path w2 (src_path src) = page_by_path w1 (src_path src)" by (simp add: w2)
    show ?thesis
    proof (cases existing)
      case None
      with ex have "page_by_path w2 (src_path src) = None" by (simp add: p2)
      with None went_on(2) reindex_consistent [OF _ c2, of E src mdx None r w'] show ?thesis by simp
    next
      case (Some pair)
      obtain existingPage parentPage where pair: "pair = (existingPage, parentPage)" by (cases pair)
      with Some ex have e2: "page_by_path w2 (src_path src) = Some existingPage" by (auto simp: p2)
      show ?thesis
      proof (cases "\<not> shouldRefresh \<and> page_checksum existingPage = Some (mdx_checksum mdx)")
        case True
        with Some pair went_on(2) patch_parent_consistent [OF _ c2] show ?thesis by simp
      next
        case False
        with Some pair went_on(2) have "reindex E src mdx (Some existingPage) w2 = (r, w')" by auto
        from reindex_consistent [OF this c2] e2 show ?thesis by simp
      qed
    qed
  qed
qed

lemma process_source_consistent:
  assumes "process_source E shouldRefresh src w = (r, w')" "consistent w"
  shows "consistent w'"
proof -
  obtain out w1 where t: "try_source E shouldRefresh src w = (out, w1)" by (cases "try_source E shouldRefresh src w")
  with assms(1) have d: "disconnect E w1 = (r, w')" by (simp add: process_source_def)
  from try_source_consistent [OF t assms(2)] disconnect_frame [OF d] show ?thesis by simp
qed

lemma process_sources_consistent:
  assumes "process_sources E shouldRefresh srcs w = (r, w')" "consistent w"
  shows "consistent w'"
  using assms
proof (induction srcs arbitrary: w)
  case Nil
  then show ?case by (simp add: io_return_def)
next
  case (Cons src srcs)
  from Cons.prems(1) have "io_bind (process_source E shouldRefresh src)
      (\<lambda>u. process_sources E shouldRefresh srcs) w = (r, w')" by simp
  then show ?case
  proof (cases rule: io_bind_cases)
    case (failed e)
    from process_source_consistent [OF failed(1) Cons.prems(2)] show ?thesis .
  next
    case (went_on a w1)
    from process_source_consistent [OF went_on(1) Cons.prems(2)] have "consistent w1" .
    from Cons.IH [OF went_on(2) this] show ?thesis .
  qed
qed

lemma quietD:
  "quiet m \<Longrightarrow> m w = (r, w') \<Longrightarrow>
     \<exists>evs. calls w' = calls w @ evs \<and> (\<forall>ev \<in> set evs. \<not> is_checksum_write ev)"
  unfolding quiet_def by blast

lemma quiet_return: "quiet (io_return a)"
  unfolding quiet_def io_return_def by simp

lemma quiet_bind:
  assumes "quiet m" "\<And>a. quiet (k a)"
  shows "quiet (io_bind m k)"
  unfolding quiet_def
proof (intro allI impI)
  fix w r w' assume "io_bind m k w = (r, w')"
  then show "\<exists>evs. calls w' = calls w @ evs \<and> (\<forall>ev \<in> set evs. \<not> is_checksum_write ev)"
  proof (cases rule: io_bind_cases)
    case (failed e)
    from quietD [OF assms(1) failed(1)] show ?thesis .
  next
    case (went_on a w1)
    from quietD [OF assms(1) went_on(1)] obtain e1 where
      e1: "calls w1 = calls w @ e1" "\<forall>ev \<in> set e1. \<not> is_checksum_write ev" by blast
    from quietD [OF assms(2) went_on(2)] obtain e2 where
      e2: "calls w' = calls w1 @ e2" "\<forall>ev \<in> set e2. \<not> is_checksum_write ev" by blast
    from e1 e2 have "calls w' = calls w @ (e1 @ e2) \<and> (\<forall>ev \<in> set (e1 @ e2). \<not> is_checksum_write ev)"
      by auto
    then show ?thesis by blast
  qed
qed

lemma quiet_call:
  assumes "\<not> is_checksum_write ev" "\<And>w r w'. run w = (r, w') \<Longrightarrow> calls w' = calls w"
  shows "quiet (call E ev err run)"
  unfolding quiet_def
proof (intro allI impI)
  fix w r w' assume c: "call E ev err run w = (r, w')"
  have "calls w' = calls w @ [ev]"
  proof (cases "fails E (calls w) ev")
    case True
    with c show ?thesis by (auto simp: call_def Let_def)
  next
    case False
    with c have "run (w\<lparr>calls := calls w @ [ev]\<rparr>) = (r, w')" by (simp add: call_def Let_def)
    from assms(2) [OF this] show ?thesis by simp
  qed
  with assms(1) show "\<exists>evs. calls w' = calls w @ evs \<and> (\<forall>ev \<in> set evs. \<not> is_checksum_write ev)"
    by simp
qed

lemma quiet_findUnique: "quiet (findUnique E p)"
  unfolding findUnique_def by (rule quiet_call) auto

lemma quiet_findUnique_with_parent: "quiet (findUnique_with_parent E p)"
  unfolding findUnique_with_parent_def by (rule quiet_call) auto

lemma quiet_deleteMany: "quiet (deleteMany E pid)"
  unfolding deleteMany_def by (rule quiet_call) auto

lemma quiet_upsert: "quiet (upsert E p t s m par)"
  unfolding upsert_def by (rule quiet_call) (auto simp: Let_def split: option.splits)

lemma quiet_update_parent: "quiet (update_parent E i q)"
  unfolding update_parent_def by (rule quiet_call) (auto split: option.splits)

lemma quiet_create_section: "quiet (create_section E pid sec tok)"
  unfolding create_section_def by (rule quiet_call) (auto simp: Let_def split: option.splits)

lemma quiet_write_embedding: "quiet (write_embedding E sid v)"
  unfolding write_embedding_def by (rule quiet_call) (auto split: if_splits)

lemma quiet_generateEmbedding: "quiet (generateEmbedding E t)"
  unfolding generateEmbedding_def Let_def by (rule quiet_call) (auto simp: io_return_def)

lemma quiet_load: "quiet (load E src)"
  unfolding quiet_def
proof (intro allI impI)
  fix w r w' assume "load E src w = (r, w')"
  from load_frame [OF this] have "calls w' = calls w @ [ReadFileCall (src_filePath src)]" by simp
  then show "\<exists>evs. calls w' = calls w @ evs \<and> (\<forall>ev \<in> set evs. \<not> is_checksum_write ev)" by simp
qed

lemma quiet_index_section: "quiet (index_section E pid sec)"
  unfolding index_section_def
  by (intro quiet_bind quiet_generateEmbedding quiet_create_section quiet_write_embedding)

lemma quiet_index_sections: "quiet (index_sections E pid secs)"
  by (induction secs) (simp_all add: quiet_return quiet_bind quiet_index_section)

lemma quiet_patch_parent: "quiet (patch_parent E pg par pp)"
  unfolding patch_parent_def
  by (auto intro!: quiet_bind quiet_findUnique quiet_update_parent quiet_return)

lemma update_checksum_calls:
  "update_checksum E i c w = (r, w') \<Longrightarrow> calls w' = calls w @ [SetChecksum i c]"
  by (auto simp: update_checksum_def call_def Let_def split: if_splits option.splits)

lemma quiet_extend:
  assumes "calls w1 = calls w @ e1" "\<forall>ev \<in> set e1. \<not> is_checksum_write ev"
    "quiet m" "m w1 = (r, w2)"
  shows "\<exists>e2. calls w2 = calls w @ e2 \<and> (\<forall>ev \<in> set e2. \<not> is_checksum_write ev)"
proof -
  from quietD [OF assms(3,4)] obtain e where
    e: "calls w2 = calls w1 @ e" "\<forall>ev \<in> set e. \<not> is_checksum_write ev" by blast
  with assms(1,2) have "calls w2 = calls w @ (e1 @ e) \<and> (\<forall>ev \<in> set (e1 @ e). \<not> is_checksum_write ev)"
    by auto
  then show ?thesis by blast
qed

text \<open>The shape of a run of reindex: either it stops before the checksum is written,
  or the section loop succeeded and the checksum write is the last call.\<close>

lemma reindex_shape:
  assumes "reindex E src mdx ex w = (r, w')"
  shows "(\<exists>evs. calls w' = calls w @ evs \<and> (\<forall>ev \<in> set evs. \<not> is_checksum_write ev)) \<or>
     (\<exists>(page :: page) w2 w3 evs. index_sections E (page_id page) (mdx_sections mdx) w2 = (Inr (), w3) \<and>
        update_checksum E (page_id page) (mdx_checksum mdx) w3 = (r, w') \<and>
        calls w3 = calls w @ evs \<and> (\<forall>ev \<in> set evs. \<not> is_checksum_write ev) \<and>
        calls w' = calls w @ evs @ [SetChecksum (page_id page) (mdx_checksum mdx)])"
proof -
  let ?A = "case ex of None \<Rightarrow> io_return () | Some pg \<Rightarrow> deleteMany E (page_id pg)"
  have qa: "quiet ?A" by (cases ex) (simp_all add: quiet_return quiet_deleteMany)
  from assms show ?thesis unfolding reindex_def
  proof (cases rule: io_bind_cases)
    case (failed e)
    from quietD [OF qa failed(1)] show ?thesis by blast
  next
    case (went_on u w1)
    from quietD [OF qa went_on(1)] obtain e1 where
      e1: "calls w1 = calls w @ e1" "\<forall>ev \<in> set e1. \<not> is_checksum_write ev" by blast
    from went_on(2) show ?thesis
    proof (cases rule: io_bind_cases)
      case (failed e)
      from quiet_extend [OF e1 quiet_findUnique failed(1)] show ?thesis by blast
    next
      case (went_on parentPage w2)
      from quiet_extend [OF e1 quiet_findUnique went_on(1)] obtain e2 where
        e2: "calls w2 = calls w @ e2" "\<forall>ev \<in> set e2. \<not> is_checksum_write ev" by blast
      from went_on(2) show ?thesis
      proof (cases rule: io_bind_cases)
        case (failed e)
        from quiet_extend [OF e2 quiet_upsert failed(1)] show ?thesis by blast
      next
        case (went_on page w3)
        from quiet_extend [OF e2 quiet_upsert went_on(1)] obtain e3 where
          e3: "calls w3 = calls w @ e3" "\<forall>ev \<in> set e3. \<not> is_checksum_write ev" by blast
        from went_on(2) show ?thesis
        proof (cases rule: io_bind_cases)
          case (failed e)
          from quiet_extend [OF e3 quiet_index_sections failed(1)] show ?thesis by blast
        next
          case (went_on u4 w4)
          from quiet_extend [OF e3 quiet_index_sections went_on(1)] obtain e4 where
            e4: "calls w4 = calls w @ e4" "\<forall>ev \<in> set e4. \<not> is_checksum_write ev" by blast
          from update_checksum_calls [OF went_on(2)] e4
          have last: "calls w' = calls w @ e4 @ [SetChecksum (page_id page) (mdx_checksum mdx)]"
            by simp
          from went_on(1) have loop: "index_sections E (page_id page) (mdx_sections mdx) w3 = (Inr (), w4)"
            by simp
          have "index_sections E (page_id page) (mdx_sections mdx) w3 = (Inr (), w4) \<and>
             update_checksum E (page_id page) (mdx_checksum mdx) w4 = (r, w') \<and>
             calls w4 = calls w @ e4 \<and> (\<forall>ev \<in> set e4. \<not> is_checksum_write ev) \<and>
             calls w' = calls w @ e4 @ [SetChecksum (page_id page) (mdx_checksum mdx)]"
            using loop went_on(2) e4 last by simp
          then show ?thesis by blast
        qed
      qed
    qed
  qed
qed

lemma parentPage_of_calls [simp]: "parentPage_of (w\<lparr>calls := c\<rparr>) pg = parentPage_of w pg"
  by (cases "page_parent_page_id pg") (simp_all add: parentPage_of_def)

lemma update_parent_frame:
  assumes "update_parent E i q w = (r, w')"
  shows "calls w' = calls w @ [UpdateParent i q] \<and> page_sections w' = page_sections w \<and>
     next_page_id w' = next_page_id w \<and> next_section_id w' = next_section_id w \<and>
     map page_checksum (pages w') = map page_checksum (pages w) \<and>
     map without_parent (pages w') = map without_parent (pages w)"
proof -
  have a: "map page_checksum (map (\<lambda>pg. if page_id pg = i then pg\<lparr>page_parent_page_id := Some p\<rparr> else pg) xs)
      = map page_checksum xs" for p and xs :: "page list"
    by (induction xs) simp_all
  have b: "map without_parent (map (\<lambda>pg. if page_id pg = i then pg\<lparr>page_parent_page_id := Some p\<rparr> else pg) xs)
      = map without_parent xs" for p and xs :: "page list"
    by (induction xs) (simp_all add: without_parent_def)
  let ?w1 = "w\<lparr>calls := calls w @ [UpdateParent i q]\<rparr>"
  show ?thesis
  proof (cases "fails E (calls w) (UpdateParent i q) \<or> page_by_id w i = None \<or> q = None")
    case True
    with assms have "w' = ?w1"
      by (auto simp: update_parent_def call_def Let_def split: if_splits option.splits)
    then show ?thesis by simp
  next
    case False
    then obtain found p where "page_by_id w i = Some found" "q = Some p" by auto
    with False assms have "w' = ?w1\<lparr>pages :=
        map (\<lambda>pg. if page_id pg = i then pg\<lparr>page_parent_page_id := Some p\<rparr> else pg) (pages w)\<rparr>"
      by (simp add: update_parent_def call_def Let_def)
    then show ?thesis by (simp add: a b without_parent_def)
  qed
qed

lemma try_source_unchanged:
  assumes ld: "load E src w = (Inr mdx, w0)"
    and pg: "page_by_path w (src_path src) = Some pg"
    and ck: "page_checksum pg = Some (mdx_checksum mdx)"
    and ts: "try_source E False src w = (out, w')"
  shows "page_sections w' = page_sections w \<and>
     next_page_id w' = next_page_id w \<and> next_section_id w' = next_section_id w \<and>
     map page_checksum (pages w') = map page_checksum (pages w) \<and>
     map without_parent (pages w') = map without_parent (pages w) \<and>
     (\<exists>evs. calls w' = calls w @ evs \<and> (\<forall>ev \<in> set evs. lookup_or_link (page_id pg) ev)) \<and>
     (map_option page_path (parentPage_of w pg) = src_parentPath src \<longrightarrow>
        pages w' = pages w \<and>
        calls w' = calls w @ [ReadFileCall (src_filePath src), FindPage (Some (src_path src))])"
proof -
  from load_frame [OF ld] have w0: "w0 = w\<lparr>calls := calls w @ [ReadFileCall (src_filePath src)]\<rparr>" .
  from ts have "io_bind (load E src) (\<lambda>mdx.
     io_bind (findUnique_with_parent E (src_path src)) (\<lambda>existing.
       (case existing of
          Some (existingPage, parentPage) \<Rightarrow>
            if \<not> False \<and> page_checksum existingPage = Some (mdx_checksum mdx)
            then patch_parent E existingPage parentPage (src_parentPath src)
            else reindex E src mdx (Some existingPage)
        | None \<Rightarrow> reindex E src mdx None))) w = (out, w')"
    by (simp only: try_source_def)
  then have "io_bind (findUnique_with_parent E (src_path src)) (\<lambda>existing.
       (case existing of
          Some (existingPage, parentPage) \<Rightarrow>
            if \<not> False \<and> page_checksum existingPage = Some (mdx_checksum mdx)
            then patch_parent E existingPage parentPage (src_parentPath src)
            else reindex E src mdx (Some existingPage)
        | None \<Rightarrow> reindex E src mdx None)) w0 = (out, w')"
  proof (cases rule: io_bind_cases)
    case (failed e)
    with ld show ?thesis by simp
  next
    case (went_on a w1)
    with ld have eq: "a = mdx" "w1 = w0" by simp_all
    from went_on(2) show ?thesis unfolding eq .
  qed
  then show ?thesis
  proof (cases rule: io_bind_cases)
    case (failed e)
    from findUnique_with_parent_frame [OF failed(1)] w0 show ?thesis by simp
  next
    case (went_on existing w1)
    from findUnique_with_parent_frame [OF went_on(1)] w0 pg
    have w1: "w1 = w\<lparr>calls := calls w @ [ReadFileCall (src_filePath src), FindPage (Some (src_path src))]\<rparr>"
      and ex: "existing = Some (pg, parentPage_of w pg)"
      by simp_all
    from went_on(2) ex ck
    have pp: "patch_parent E pg (parentPage_of w pg) (src_parentPath src) w1 = (out, w')" by simp
    show ?thesis
    proof (cases "map_option page_path (parentPage_of w pg) = src_parentPath src")
      case True
      with pp have "w' = w1" by (simp add: patch_parent_def io_return_def)
      with w1 True show ?thesis by simp
    next
      case False
      with pp have "io_bind (findUnique E (src_parentPath src)) (\<lambda>found.
             update_parent E (page_id pg) (map_option page_id found)) w1 = (out, w')"
        by (simp add: patch_parent_def)
      then show ?thesis
      proof (cases rule: io_bind_cases)
        case (failed e)
        from findUnique_frame [OF failed(1)] w1 False show ?thesis by simp
      next
        case (went_on found w2)
        from findUnique_frame [OF went_on(1)] w1
        have w2: "w2 = w\<lparr>calls := calls w @ [ReadFileCall (src_filePath src),
            FindPage (Some (src_path src)), FindPage (src_parentPath src)]\<rparr>" by simp
        from update_parent_frame [OF went_on(2)] w2 False show ?thesis by simp
      qed
    qed
  qed
qed

lemma mdx_no_sections:
  assumes "fromMarkdown E content = Some tree"
    "unist_filter E tree not_mdx = None \<or>
     (\<exists>t. unist_filter E tree not_mdx = Some t \<and> children t = [])"
  shows "processMdxForSearch E content =
     Inr \<lparr>mdx_checksum = sha256_base64 E content, mdx_meta = extractMetaExport tree, mdx_sections = []\<rparr>"
  using assms by (auto simp: processMdxForSearch_def Let_def splitTreeBy_def)

lemma find_map_preserved:
  assumes "\<And>x. P (f x) = P x"
  shows "find P (map f xs) = map_option f (find P xs)"
  by (induction xs) (simp_all add: assms)

lemma find_append_new:
  "find P xs = None \<Longrightarrow> P y \<Longrightarrow> find P (xs @ [y]) = Some y"
  by (induction xs) (simp_all split: if_splits)

lemma call_calls:
  assumes "call E ev err run w = (r, w')" "\<And>w r w'. run w = (r, w') \<Longrightarrow> calls w' = calls w"
  shows "calls w' = calls w @ [ev]"
proof (cases "fails E (calls w) ev")
  case True
  with assms(1) show ?thesis by (auto simp: call_def Let_def)
next
  case False
  with assms(1) have "run (w\<lparr>calls := calls w @ [ev]\<rparr>) = (r, w')" by (simp add: call_def Let_def)
  from assms(2) [OF this] show ?thesis by simp
qed

lemma deleteMany_calls: "deleteMany E pid w = (r, w') \<Longrightarrow> calls w' = calls w @ [DeleteSections pid]"
  unfolding deleteMany_def by (erule call_calls) auto

lemma upsert_calls: "upsert E p t s m par w = (r, w') \<Longrightarrow> calls w' = calls w @ [UpsertPage p]"
  unfolding upsert_def by (erule call_calls) (auto simp: Let_def split: option.splits)

lemma upsert_stored:
  assumes "upsert E path type source meta par w = (Inr pg, w')"
  shows "page_by_path w' path = Some pg \<and> page_checksum pg = None \<and>
         page_by_id w' (page_id pg) \<noteq> None"
proof -
  let ?w1 = "w\<lparr>calls := calls w @ [UpsertPage path]\<rparr>"
  from assms have nf: "\<not> fails E (calls w) (UpsertPage path)"
    by (auto simp: upsert_def call_def Let_def)
  show ?thesis
  proof (cases "page_by_path w path")
    case None
    let ?new = "\<lparr>page_id = next_page_id w, page_parent_page_id = par, page_path = path,
                 page_checksum = None, page_meta = meta, page_type = Some type,
                 page_source = Some source\<rparr>"
    from nf None assms
    have "(Inr ?new, ?w1\<lparr>pages := pages w @ [?new], next_page_id := Suc (next_page_id w)\<rparr>)
            = (Inr pg :: error + page, w')"
      by (auto simp: upsert_def call_def Let_def)
    then have "?new = pg \<and>
        ?w1\<lparr>pages := pages w @ [?new], next_page_id := Suc (next_page_id w)\<rparr> = w'"
      by blast
    then have r: "pg = ?new"
      and w': "w' = ?w1\<lparr>pages := pages w @ [?new], next_page_id := Suc (next_page_id w)\<rparr>"
      by blast+
    from None have "find (\<lambda>p. page_path p = path) (pages w @ [?new]) = Some ?new"
      unfolding page_by_path_def by (rule find_append_new) simp
    then have a: "page_by_path w' path = Some pg" by (simp add: page_by_path_def w' r)
    have "?new \<in> set (pages w')" unfolding w' by simp
    moreover have "page_id ?new = page_id pg" by (simp add: r)
    ultimately have "page_by_id w' (page_id pg) \<noteq> None"
      unfolding page_by_id_def find_None_iff by blast
    with a r show ?thesis by simp
  next
    case (Some ex)
    let ?f = "\<lambda>pg. if page_path pg = path then upsert_update path type source meta par pg else pg"
    from nf Some assms
    have "(Inr (upsert_update path type source meta par ex), ?w1\<lparr>pages := map ?f (pages w)\<rparr>)
            = (Inr pg :: error + page, w')"
      by (auto simp: upsert_def call_def Let_def)
    then have "upsert_update path type source meta par ex = pg \<and>
        ?w1\<lparr>pages := map ?f (pages w)\<rparr> = w'"
      by blast
    then have r: "pg = upsert_update path type source meta par ex"
      and w': "w' = ?w1\<lparr>pages := map ?f (pages w)\<rparr>"
      by blast+
    have exm: "ex \<in> set (pages w)" "page_path ex = path" using page_by_path_mem [OF Some] by simp_all
    have "find (\<lambda>p. page_path p = path) (map ?f (pages w))
          = map_option ?f (find (\<lambda>p. page_path p = path) (pages w))"
      by (rule find_map_preserved) (simp add: upsert_update_def)
    with Some exm have a: "page_by_path w' path = Some pg"
      by (simp add: page_by_path_def w' r)
    have "?f ex \<in> set (pages w')" using exm(1) unfolding w' by simp
    moreover have "page_id (?f ex) = page_id pg" by (simp add: r upsert_update_def)
    ultimately have "page_by_id w' (page_id pg) \<noteq> None"
      unfolding page_by_id_def find_None_iff by blast
    with a r show ?thesis by (simp add: upsert_update_def)
  qed
qed

lemma update_checksum_stored:
  assumes u: "update_checksum E i c w = (r, w')" and nf: "\<not> fails E (calls w) (SetChecksum i c)"
    and pg: "page_by_path w path = Some pg" "page_id pg = i"
  shows "r = Inr () \<and> page_by_path w' path = Some (pg\<lparr>page_checksum := Some c\<rparr>) \<and>
         page_sections w' = page_sections w"
proof -
  let ?f = "\<lambda>pg. if page_id pg = i then pg\<lparr>page_checksum := Some c\<rparr> else pg"
  from page_by_path_mem [OF pg(1)] pg(2) have "pg \<in> set (pages w)" "page_id pg = i" by simp_all
  then have "page_by_id w i \<noteq> None" unfolding page_by_id_def find_None_iff by blast
  then obtain found where f: "page_by_id w i = Some found" by auto
  with nf u have r: "r = Inr ()"
    and w': "w' = w\<lparr>calls := calls w @ [SetChecksum i c], pages := map ?f (pages w)\<rparr>"
    by (simp_all add: update_checksum_def call_def Let_def)
  have "find (\<lambda>p. page_path p = path) (map ?f (pages w))
          = map_option ?f (find (\<lambda>p. page_path p = path) (pages w))"
    by (rule find_map_preserved) simp
  with pg have "page_by_path w' path = Some (pg\<lparr>page_checksum := Some c\<rparr>)"
    by (simp add: page_by_path_def w')
  with r show ?thesis by (simp add: w')
qed

section \<open>Properties of the sync engine: runs without failure, and the order of the calls\<close>

lemma call_nofail:
  "\<not> fails E (calls w) ev \<Longrightarrow> call E ev err run w = run (w\<lparr>calls := calls w @ [ev]\<rparr>)"
  by (simp add: call_def Let_def)

lemma findUnique_ok:
  assumes "\<forall>h e. \<not> fails E h e"
  shows "findUnique E p w =
     (Inr (case p of None \<Rightarrow> None | Some q \<Rightarrow> page_by_path w q), w\<lparr>calls := calls w @ [FindPage p]\<rparr>)"
  using assms by (cases p) (simp_all add: findUnique_def call_nofail)

lemma update_parent_ok:
  assumes nf: "\<forall>h e. \<not> fails E h e" and pg: "pg \<in> set (pages w)" "page_id pg = i"
    and u: "update_parent E i q w = (r, w')"
  shows "r = Inr ()"
proof -
  from pg have "page_by_id w i \<noteq> None" unfolding page_by_id_def find_None_iff by blast
  then obtain found where "page_by_id w i = Some found" by auto
  with nf u show ?thesis by (cases q) (auto simp: update_parent_def call_nofail)
qed

lemma patch_parent_ok:
  assumes nf: "\<forall>h e. \<not> fails E h e" and pg: "pg \<in> set (pages w)"
    and pp: "patch_parent E pg parentPage parentPath w = (r, w')"
  shows "r = Inr ()"
proof (cases "map_option page_path parentPage \<noteq> parentPath")
  case False
  with pp show ?thesis by (simp add: patch_parent_def io_return_def)
next
  case True
  with pp have "io_bind (findUnique E parentPath) (\<lambda>found.
             update_parent E (page_id pg) (map_option page_id found)) w = (r, w')"
    by (simp add: patch_parent_def)
  then show ?thesis
  proof (cases rule: io_bind_cases)
    case (failed e)
    with findUnique_ok [OF nf, of parentPath w] show ?thesis by simp
  next
    case (went_on found w1)
    with findUnique_ok [OF nf, of parentPath w] have "w1 = w\<lparr>calls := calls w @ [FindPage parentPath]\<rparr>"
      by simp
    with pg have "pg \<in> set (pages w1)" by simp
    from update_parent_ok [OF nf this refl went_on(2)] show ?thesis .
  qed
qed

lemma find_without_parent:
  assumes "map without_parent xs = map without_parent ys" "find (\<lambda>p. page_path p = x) ys = Some pg"
  shows "\<exists>pg'. find (\<lambda>p. page_path p = x) xs = Some pg' \<and> page_checksum pg' = page_checksum pg \<and>
     page_id pg' = page_id pg"
  using assms
proof (induction xs arbitrary: ys)
  case Nil
  then show ?case by simp
next
  case (Cons a xs)
  then obtain b ys' where ys: "ys = b # ys'" by (cases ys) auto
  with Cons.prems(1) have ab: "without_parent a = without_parent b"
    and rest: "map without_parent xs = map without_parent ys'" by simp_all
  have f: "page_path a = page_path b" "page_checksum a = page_checksum b" "page_id a = page_id b"
    using arg_cong [OF ab, of page_path] arg_cong [OF ab, of page_checksum]
      arg_cong [OF ab, of page_id]
    by (simp_all add: without_parent_def)
  show ?case
  proof (cases "page_path b = x")
    case True
    with Cons.prems(2) ys f show ?thesis by simp
  next
    case False
    with Cons.prems(2) ys have "find (\<lambda>p. page_path p = x) ys' = Some pg" by simp
    from Cons.IH [OF rest this] False f show ?thesis by simp
  qed
qed

lemma deleteMany_ok:
  assumes "\<forall>h e. \<not> fails E h e"
  shows "deleteMany E pid w =
     (Inr (), w\<lparr>calls := calls w @ [DeleteSections pid],
               page_sections := filter (\<lambda>s. ps_page_id s \<noteq> pid) (page_sections w)\<rparr>)"
  using assms by (simp add: deleteMany_def call_nofail)

lemma lookup_or_link_not_section: "lookup_or_link pid ev \<Longrightarrow> \<not> section_call ev"
  by (cases ev) simp_all

lemma reindex_empty:
  assumes nf: "\<forall>h e. \<not> fails E h e" and c: "consistent w"
    and ex: "ex = page_by_path w (src_path src)" and em: "mdx_sections mdx = []"
    and re: "reindex E src mdx ex w = (out, w')"
  shows "out = Inr () \<and>
     (\<exists>pg pre. page_by_path w' (src_path src) = Some pg \<and>
        page_checksum pg = Some (mdx_checksum mdx) \<and>
        (\<forall>s \<in> set (page_sections w'). ps_page_id s \<noteq> page_id pg) \<and>
        calls w' = calls w @ pre @ [UpsertPage (src_path src), SetChecksum (page_id pg) (mdx_checksum mdx)] \<and>
        (\<forall>ev \<in> set pre. \<not> section_call ev))"
proof -
  let ?A = "case ex of None \<Rightarrow> io_return () | Some pg \<Rightarrow> deleteMany E (page_id pg)"
  define w1 where "w1 = (case ex of None \<Rightarrow> w
      | Some pg \<Rightarrow> w\<lparr>calls := calls w @ [DeleteSections (page_id pg)],
               page_sections := filter (\<lambda>s. ps_page_id s \<noteq> page_id pg) (page_sections w)\<rparr>)"
  have a: "?A w = (Inr (), w1)"
    by (cases ex) (simp_all add: w1_def io_return_def deleteMany_ok [OF nf])
  have c1: "consistent w1"
  proof (cases ex)
    case None
    with c show ?thesis by (simp add: w1_def)
  next
    case (Some pg)
    have "deleteMany E (page_id pg) w = (Inr (), w1)" using a Some by simp
    from deleteMany_consistent [OF this c] show ?thesis by simp
  qed
  have p1: "pages w1 = pages w" by (cases ex) (simp_all add: w1_def)
  have n1: "\<forall>pg. ex = Some pg \<longrightarrow> (\<forall>s \<in> set (page_sections w1). ps_page_id s \<noteq> page_id pg)"
    by (cases ex) (simp_all add: w1_def)
  have e1: "\<exists>pre. calls w1 = calls w @ pre \<and> (\<forall>ev \<in> set pre. \<not> section_call ev)"
  proof (cases ex)
    case None
    then have "calls w1 = calls w @ [] \<and> (\<forall>ev \<in> set []. \<not> section_call ev)" by (simp add: w1_def)
    then show ?thesis by blast
  next
    case (Some pg)
    then have "calls w1 = calls w @ [DeleteSections (page_id pg)] \<and>
        (\<forall>ev \<in> set [DeleteSections (page_id pg)]. \<not> section_call ev)" by (simp add: w1_def)
    then show ?thesis by blast
  qed
  let ?w2 = "w1\<lparr>calls := calls w1 @ [FindPage (src_parentPath src)]\<rparr>"
  let ?par = "map_option page_id (case src_parentPath src of None \<Rightarrow> None | Some q \<Rightarrow> page_by_path w1 q)"
  have b: "findUnique E (src_parentPath src) w1 =
      (Inr (case src_parentPath src of None \<Rightarrow> None | Some q \<Rightarrow> page_by_path w1 q), ?w2)"
    by (rule findUnique_ok [OF nf])
  have c2: "consistent ?w2" using c1 by simp
  have ex2: "page_by_path ?w2 (src_path src) = ex"
    using page_by_path_pages [OF p1, of "src_path src"] ex by simp
  obtain r3 w3 where u: "upsert E (src_path src) ''markdown'' (src_source src) (mdx_meta mdx) ?par ?w2 = (r3, w3)"
    by (cases "upsert E (src_path src) ''markdown'' (src_source src) (mdx_meta mdx) ?par ?w2")
  have nf2: "\<not> fails E (calls ?w2) (UpsertPage (src_path src))" using nf by simp
  obtain page where pg: "r3 = Inr page" "consistent w3" "page_sections w3 = page_sections w1"
    "\<forall>s \<in> set (page_sections w3). ps_page_id s \<noteq> page_id page"
  proof (cases ex)
    case None
    with upsert_created [OF u c2 nf2] ex2 obtain p where p: "r3 = Inr p" "consistent w3"
      "page_sections w3 = page_sections ?w2" "page_id p = next_page_id ?w2" by auto
    from c2 have "\<forall>s \<in> set (page_sections ?w2). ps_page_id s \<noteq> next_page_id ?w2"
      unfolding consistent_def store_ok_def by fastforce
    with p that [of p] show ?thesis by simp
  next
    case (Some pg0)
    with upsert_updated [OF u c2 nf2] ex2 obtain p where p: "r3 = Inr p" "consistent w3"
      "page_sections w3 = page_sections ?w2" "page_id p = page_id pg0" by auto
    with n1 Some that [of p] show ?thesis by simp
  qed
  from u pg(1) have u': "upsert E (src_path src) ''markdown'' (src_source src) (mdx_meta mdx) ?par ?w2 = (Inr page, w3)"
    by simp
  from upsert_stored [OF u'] have st: "page_by_path w3 (src_path src) = Some page" by simp
  from upsert_calls [OF u'] have cl3: "calls w3 = calls w1 @ [FindPage (src_parentPath src), UpsertPage (src_path src)]"
    by simp
  obtain r4 w4 where uc: "update_checksum E (page_id page) (mdx_checksum mdx) w3 = (r4, w4)"
    by (cases "update_checksum E (page_id page) (mdx_checksum mdx) w3")
  have nf3: "\<not> fails E (calls w3) (SetChecksum (page_id page) (mdx_checksum mdx))" using nf by simp
  from update_checksum_stored [OF uc nf3 st refl]
  have r4: "r4 = Inr ()" and st4: "page_by_path w4 (src_path src) = Some (page\<lparr>page_checksum := Some (mdx_checksum mdx)\<rparr>)"
    and s4: "page_sections w4 = page_sections w3" by simp_all
  from update_checksum_calls [OF uc] cl3
  have cl4: "calls w4 = calls w1 @ [FindPage (src_parentPath src)] @
      [UpsertPage (src_path src), SetChecksum (page_id page) (mdx_checksum mdx)]" by simp
  have run: "reindex E src mdx ex w = (r4, w4)"
    using a b u' uc em by (simp add: reindex_def io_bind_def io_return_def)
  with re have o: "out = r4" "w' = w4" by simp_all
  from e1 obtain pre where pre: "calls w1 = calls w @ pre" "\<forall>ev \<in> set pre. \<not> section_call ev" by blast
  let ?pg = "page\<lparr>page_checksum := Some (mdx_checksum mdx)\<rparr>"
  let ?pre = "pre @ [FindPage (src_parentPath src)]"
  have "page_by_path w' (src_path src) = Some ?pg \<and>
        page_checksum ?pg = Some (mdx_checksum mdx) \<and>
        (\<forall>s \<in> set (page_sections w'). ps_page_id s \<noteq> page_id ?pg) \<and>
        calls w' = calls w @ ?pre @ [UpsertPage (src_path src), SetChecksum (page_id ?pg) (mdx_checksum mdx)] \<and>
        (\<forall>ev \<in> set ?pre. \<not> section_call ev)"
    using o st4 s4 pg(4) cl4 pre by simp
  then have "\<exists>pg pre. page_by_path w' (src_path src) = Some pg \<and>
        page_checksum pg = Some (mdx_checksum mdx) \<and>
        (\<forall>s \<in> set (page_sections w'). ps_page_id s \<noteq> page_id pg) \<and>
        calls w' = calls w @ pre @ [UpsertPage (src_path src), SetChecksum (page_id pg) (mdx_checksum mdx)] \<and>
        (\<forall>ev \<in> set pre. \<not> section_call ev)" by blast
  with o r4 show ?thesis by simp
qed

lemma load_result:
  "load E src w = (r, w') \<Longrightarrow>
     r = (case readFile E (src_filePath src) of None \<Rightarrow> Inl ReadError
          | Some contents \<Rightarrow> processMdxForSearch E contents)"
  by (auto simp: load_def Let_def split: option.splits sum.splits)

lemma try_source_shape:
  assumes ts: "try_source E shouldRefresh src w = (out, w')"
  shows "(\<exists>evs. calls w' = calls w @ evs \<and> (\<forall>ev \<in> set evs. \<not> is_checksum_write ev)) \<or>
     (\<exists>mdx w0 (page :: page) w2 w3 evs.
        load E src w = (Inr mdx, w0) \<and>
        index_sections E (page_id page) (mdx_sections mdx) w2 = (Inr (), w3) \<and>
        update_checksum E (page_id page) (mdx_checksum mdx) w3 = (out, w') \<and>
        calls w3 = calls w @ evs \<and> (\<forall>ev \<in> set evs. \<not> is_checksum_write ev) \<and>
        calls w' = calls w @ evs @ [SetChecksum (page_id page) (mdx_checksum mdx)])"
  using ts unfolding try_source_def
proof (cases rule: io_bind_cases)
  case (failed e)
  from quietD [OF quiet_load failed(1)] show ?thesis by blast
next
  case (went_on mdx w0)
  from quietD [OF quiet_load went_on(1)] obtain e0 where
    e0: "calls w0 = calls w @ e0" "\<forall>ev \<in> set e0. \<not> is_checksum_write ev" by blast
  from went_on(2) show ?thesis
  proof (cases rule: io_bind_cases)
    case (failed e)
    from quiet_extend [OF e0 quiet_findUnique_with_parent failed(1)] show ?thesis by blast
  next
    case (went_on existing w1)
    from quiet_extend [OF e0 quiet_findUnique_with_parent went_on(1)] obtain e1 where
      e1: "calls w1 = calls w @ e1" "\<forall>ev \<in> set e1. \<not> is_checksum_write ev" by blast
    have "(\<exists>ex. reindex E src mdx ex w1 = (out, w')) \<or>
          (\<exists>pg par. patch_parent E pg par (src_parentPath src) w1 = (out, w'))"
      using went_on(2) by (auto split: option.splits prod.splits if_splits)
    then show ?thesis
    proof
      assume "\<exists>pg par. patch_parent E pg par (src_parentPath src) w1 = (out, w')"
      then obtain pg par where "patch_parent E pg par (src_parentPath src) w1 = (out, w')" by blast
      from quiet_extend [OF e1 quiet_patch_parent this] show ?thesis by blast
    next
      assume "\<exists>ex. reindex E src mdx ex w1 = (out, w')"
      then obtain ex where "reindex E src mdx ex w1 = (out, w')" by blast
      from reindex_shape [OF this] show ?thesis
      proof
        assume "\<exists>evs. calls w' = calls w1 @ evs \<and> (\<forall>ev \<in> set evs. \<not> is_checksum_write ev)"
        then obtain evs where "calls w' = calls w1 @ evs" "\<forall>ev \<in> set evs. \<not> is_checksum_write ev"
          by blast
        with e1 have "calls w' = calls w @ (e1 @ evs) \<and> (\<forall>ev \<in> set (e1 @ evs). \<not> is_checksum_write ev)"
          by auto
        then show ?thesis by blast
      next
        assume "\<exists>(page :: page) w2 w3 evs.
          index_sections E (page_id page) (mdx_sections mdx) w2 = (Inr (), w3) \<and>
          update_checksum E (page_id page) (mdx_checksum mdx) w3 = (out, w') \<and>
          calls w3 = calls w1 @ evs \<and> (\<forall>ev \<in> set evs. \<not> is_checksum_write ev) \<and>
          calls w' = calls w1 @ evs @ [SetChecksum (page_id page) (mdx_checksum mdx)]"
        then obtain page :: page and w2 w3 evs where s:
          "index_sections E (page_id page) (mdx_sections mdx) w2 = (Inr (), w3)"
          "update_checksum E (page_id page) (mdx_checksum mdx) w3 = (out, w')"
          "calls w3 = calls w1 @ evs" "\<forall>ev \<in> set evs. \<not> is_checksum_write ev"
          "calls w' = calls w1 @ evs @ [SetChecksum (page_id page) (mdx_checksum mdx)]"
          by blast
        from s(3,4,5) e1 have "calls w3 = calls w @ (e1 @ evs) \<and>
           (\<forall>ev \<in> set (e1 @ evs). \<not> is_checksum_write ev) \<and>
           calls w' = calls w @ (e1 @ evs) @ [SetChecksum (page_id page) (mdx_checksum mdx)]"
          by auto
        with \<open>load E src w = (Inr mdx, w0)\<close> s(1,2)
        have "load E src w = (Inr mdx, w0) \<and>
          index_sections E (page_id page) (mdx_sections mdx) w2 = (Inr (), w3) \<and>
          update_checksum E (page_id page) (mdx_checksum mdx) w3 = (out, w') \<and>
          calls w3 = calls w @ (e1 @ evs) \<and> (\<forall>ev \<in> set (e1 @ evs). \<not> is_checksum_write ev) \<and>
          calls w' = calls w @ (e1 @ evs) @ [SetChecksum (page_id page) (mdx_checksum mdx)]"
          by simp
        then show ?thesis by blast
      qed
    qed
  qed
qed

lemma checksum_write_last:
  assumes ts: "try_source E shouldRefresh src w = (out, w')"
    and cl: "calls w' = calls w @ evs" and m: "SetChecksum i c \<in> set evs"
  shows "\<exists>mdx w0 w2 w3 evs0.
        load E src w = (Inr mdx, w0) \<and> c = mdx_checksum mdx \<and>
        index_sections E i (mdx_sections mdx) w2 = (Inr (), w3) \<and>
        update_checksum E i c w3 = (out, w') \<and>
        calls w3 = calls w @ evs0 \<and> (\<forall>ev \<in> set evs0. \<not> is_checksum_write ev) \<and>
        evs = evs0 @ [SetChecksum i c]"
  using try_source_shape [OF ts]
proof
  assume "\<exists>evs. calls w' = calls w @ evs \<and> (\<forall>ev \<in> set evs. \<not> is_checksum_write ev)"
  then obtain evs' where "calls w' = calls w @ evs'" "\<forall>ev \<in> set evs'. \<not> is_checksum_write ev" by blast
  with cl have "\<forall>ev \<in> set evs. \<not> is_checksum_write ev" by simp
  with m have False by auto
  then show ?thesis ..
next
  assume "\<exists>mdx w0 (page :: page) w2 w3 evs.
        load E src w = (Inr mdx, w0) \<and>
        index_sections E (page_id page) (mdx_sections mdx) w2 = (Inr (), w3) \<and>
        update_checksum E (page_id page) (mdx_checksum mdx) w3 = (out, w') \<and>
        calls w3 = calls w @ evs \<and> (\<forall>ev \<in> set evs. \<not> is_checksum_write ev) \<and>
        calls w' = calls w @ evs @ [SetChecksum (page_id page) (mdx_checksum mdx)]"
  then obtain mdx w0 and page :: page and w2 w3 evs0 where s:
    "load E src w = (Inr mdx, w0)"
    "index_sections E (page_id page) (mdx_sections mdx) w2 = (Inr (), w3)"
    "update_checksum E (page_id page) (mdx_checksum mdx) w3 = (out, w')"
    "calls w3 = calls w @ evs0" "\<forall>ev \<in> set evs0. \<not> is_checksum_write ev"
    "calls w' = calls w @ evs0 @ [SetChecksum (page_id page) (mdx_checksum mdx)]"
    by blast
  from s(6) cl have evs: "evs = evs0 @ [SetChecksum (page_id page) (mdx_checksum mdx)]" by simp
  with m s(5) have "SetChecksum i c = SetChecksum (page_id page) (mdx_checksum mdx)" by auto
  then have ic: "i = page_id page" "c = mdx_checksum mdx" by simp_all
  from s evs ic have "load E src w = (Inr mdx, w0) \<and> c = mdx_checksum mdx \<and>
        index_sections E i (mdx_sections mdx) w2 = (Inr (), w3) \<and>
        update_checksum E i c w3 = (out, w') \<and>
        calls w3 = calls w @ evs0 \<and> (\<forall>ev \<in> set evs0. \<not> is_checksum_write ev) \<and>
        evs = evs0 @ [SetChecksum i c]" by simp
  then show ?thesis by blast
qed

lemma findUnique_with_parent_ok:
  assumes "\<forall>h e. \<not> fails E h e"
  shows "findUnique_with_parent E p w =
     (Inr (map_option (\<lambda>pg. (pg, parentPage_of w pg)) (page_by_path w p)),
      w\<lparr>calls := calls w @ [FindPage (Some p)]\<rparr>)"
  using assms by (cases "page_by_path w p") (simp_all add: findUnique_with_parent_def call_nofail)

lemma empty_document:
  assumes rf: "readFile E (src_filePath src) = Some content"
    and pm: "fromMarkdown E content = Some tree"
    and fl: "unist_filter E tree not_mdx = None \<or>
             (\<exists>t. unist_filter E tree not_mdx = Some t \<and> children t = [])"
    and nf: "\<forall>h e. \<not> fails E h e"
    and c: "consistent w"
    and ts: "try_source E shouldRefresh src w = (out, w')"
  shows "out = Inr () \<and>
     (\<exists>pg evs. page_by_path w' (src_path src) = Some pg \<and>
        page_checksum pg = Some (sha256_base64 E content) \<and>
        calls w' = calls w @ evs \<and> (\<forall>ev \<in> set evs. \<not> section_call ev) \<and>
        (shouldRefresh \<or>
         map_option page_checksum (page_by_path w (src_path src)) \<noteq> Some (Some (sha256_base64 E content)) \<longrightarrow>
           (\<forall>s \<in> set (page_sections w'). ps_page_id s \<noteq> page_id pg) \<and>
           (\<exists>pre. evs = pre @ [UpsertPage (src_path src),
                                SetChecksum (page_id pg) (sha256_base64 E content)])))"
proof -
  let ?mdx = "\<lparr>mdx_checksum = sha256_base64 E content, mdx_meta = extractMetaExport tree,
               mdx_sections = []\<rparr>"
  let ?w0 = "w\<lparr>calls := calls w @ [ReadFileCall (src_filePath src)]\<rparr>"
  let ?w1 = "w\<lparr>calls := calls w @ [ReadFileCall (src_filePath src), FindPage (Some (src_path src))]\<rparr>"
  let ?c = "sha256_base64 E content"
  have ld: "load E src w = (Inr ?mdx, ?w0)"
    using rf mdx_no_sections [OF pm fl] by (simp add: load_def Let_def)
  have fu: "findUnique_with_parent E (src_path src) ?w0 =
     (Inr (map_option (\<lambda>pg. (pg, parentPage_of w pg)) (page_by_path w (src_path src))), ?w1)"
    using findUnique_with_parent_ok [OF nf, of "src_path src" ?w0] by simp
  have c1: "consistent ?w1" using c by simp
  have p1: "page_by_path ?w1 (src_path src) = page_by_path w (src_path src)" by simp
  show ?thesis
  proof (cases "shouldRefresh \<or>
         map_option page_checksum (page_by_path w (src_path src)) \<noteq> Some (Some ?c)")
    case True
    have re: "reindex E src ?mdx (page_by_path w (src_path src)) ?w1 = (out, w')"
    proof (cases "page_by_path w (src_path src)")
      case None
      with ts ld fu show ?thesis by (simp add: try_source_def io_bind_def)
    next
      case (Some pg)
      with True have "\<not> (\<not> shouldRefresh \<and> page_checksum pg = Some ?c)" by auto
      with Some ts ld fu show ?thesis by (simp add: try_source_def io_bind_def)
    qed
    from reindex_empty [OF nf c1 _ _ re] p1
    obtain pg pre where r: "out = Inr ()" "page_by_path w' (src_path src) = Some pg"
      "page_checksum pg = Some ?c" "\<forall>s \<in> set (page_sections w'). ps_page_id s \<noteq> page_id pg"
      "calls w' = calls ?w1 @ pre @ [UpsertPage (src_path src), SetChecksum (page_id pg) ?c]"
      "\<forall>ev \<in> set pre. \<not> section_call ev"
      by auto
    let ?pre = "[ReadFileCall (src_filePath src), FindPage (Some (src_path src))] @ pre"
    let ?evs = "?pre @ [UpsertPage (src_path src), SetChecksum (page_id pg) ?c]"
    from r have "page_by_path w' (src_path src) = Some pg \<and>
        page_checksum pg = Some ?c \<and>
        calls w' = calls w @ ?evs \<and> (\<forall>ev \<in> set ?evs. \<not> section_call ev) \<and>
        ((\<forall>s \<in> set (page_sections w'). ps_page_id s \<noteq> page_id pg) \<and>
           (\<exists>pre. ?evs = pre @ [UpsertPage (src_path src), SetChecksum (page_id pg) ?c]))"
      by simp
    then have "\<exists>pg evs. page_by_path w' (src_path src) = Some pg \<and>
        page_checksum pg = Some ?c \<and>
        calls w' = calls w @ evs \<and> (\<forall>ev \<in> set evs. \<not> section_call ev) \<and>
        ((\<forall>s \<in> set (page_sections w'). ps_page_id s \<noteq> page_id pg) \<and>
           (\<exists>pre. evs = pre @ [UpsertPage (src_path src), SetChecksum (page_id pg) ?c]))"
      by blast
    with r(1) show ?thesis by blast
  next
    case False
    then have nr: "\<not> shouldRefresh" by simp
    from False obtain pg where pg: "page_by_path w (src_path src) = Some pg"
      "page_checksum pg = Some ?c" by (cases "page_by_path w (src_path src)") auto
    from ts nr have ts': "try_source E False src w = (out, w')" by simp
    have ck: "page_checksum pg = Some (mdx_checksum ?mdx)" using pg(2) by simp
    from try_source_unchanged [OF ld pg(1) ck ts']
    have u: "map without_parent (pages w') = map without_parent (pages w)"
      and ev: "\<exists>evs. calls w' = calls w @ evs \<and> (\<forall>ev \<in> set evs. lookup_or_link (page_id pg) ev)"
      by simp_all
    from pg(1) have "find (\<lambda>p. page_path p = src_path src) (pages w) = Some pg"
      by (simp add: page_by_path_def)
    from find_without_parent [OF u this] pg(2)
    obtain pg' where pg': "page_by_path w' (src_path src) = Some pg'" "page_checksum pg' = Some ?c"
      by (auto simp: page_by_path_def)
    from ev obtain evs where evs: "calls w' = calls w @ evs" "\<forall>ev \<in> set evs. \<not> section_call ev"
      using lookup_or_link_not_section by blast
    have pp: "patch_parent E pg (parentPage_of w pg) (src_parentPath src) ?w1 = (out, w')"
      using ts' ld fu pg by (simp add: try_source_def io_bind_def)
    from page_by_path_mem [OF pg(1)] have "pg \<in> set (pages ?w1)" by simp
    from patch_parent_ok [OF nf this pp] have o: "out = Inr ()" .
    from False pg' evs have "page_by_path w' (src_path src) = Some pg' \<and>
        page_checksum pg' = Some ?c \<and>
        calls w' = calls w @ evs \<and> (\<forall>ev \<in> set evs. \<not> section_call ev) \<and>
        (shouldRefresh \<or>
         map_option page_checksum (page_by_path w (src_path src)) \<noteq> Some (Some ?c) \<longrightarrow>
           (\<forall>s \<in> set (page_sections w'). ps_page_id s \<noteq> page_id pg') \<and>
           (\<exists>pre. evs = pre @ [UpsertPage (src_path src), SetChecksum (page_id pg') ?c]))"
      by simp
    with o show ?thesis by blast
  qed
qed

section \<open>Properties of the sync engine: the claims\<close>

lemma indexed_world_reached:
  "snd (process_sources example_env False [welcome_source, intro_source] empty_world)
    = indexed_world\<lparr>calls :=
        calls (snd (process_sources example_env False [welcome_source, intro_source] empty_world))\<rparr>"
  by code_simp

lemma consistent_empty_world: "consistent empty_world"
  by (simp add: consistent_def store_ok_def checksum_sound_def empty_world_def)

lemma run_pair: "m w = (fst (m w), snd (m w))"
  by simp

text \<open>
  Claim C1, as stated, says that a page's checksum is non-null if and only if every
  section row of the page has an embedding. The embedding service fails on the second
  section of a document with three sections: the run leaves the page with a null
  checksum and one section row, which has its embedding.
\<close>

theorem null_checksum_with_embedded_sections:
  "map page_id (pages (snd (process_source embedding_fails_env False intro_source empty_world))) = [1] \<and>
   map page_checksum (pages (snd (process_source embedding_fails_env False intro_source empty_world))) = [None] \<and>
   map (\<lambda>s. (ps_page_id s, ps_embedding s = None))
     (page_sections (snd (process_source embedding_fails_env False intro_source empty_world))) = [(1, False)]"
  by code_simp

text \<open>
  Claim C1, amended. (1) Whatever fails, a run of the sync engine over any documents
  keeps the store consistent: a page whose checksum is non-null has an embedding on
  every one of its section rows (the converse does not hold). (2) A successful upsert
  returns and stores the page with a null checksum. (3) If the processing of a
  document calls the checksum write at all, that call is the last call of the
  document's \<open>try\<close> block, it writes the checksum computed from the content just loaded,
  and it directly follows a run of the section loop that succeeded for all sections;
  no call before it writes a checksum.
\<close>

theorem checksum_marks_complete_pages:
  "(consistent w \<longrightarrow> consistent (snd (process_sources E shouldRefresh srcs w))) \<and>
   (upsert E path type source meta par w = (Inr pg, w1) \<longrightarrow>
      page_checksum pg = None \<and> page_by_path w1 path = Some pg) \<and>
   (try_source E shouldRefresh src w = (out, w') \<and> calls w' = calls w @ evs \<and>
    SetChecksum i c \<in> set evs \<longrightarrow>
      (\<exists>mdx w0 w2 w3 evs0.
        load E src w = (Inr mdx, w0) \<and> c = mdx_checksum mdx \<and>
        index_sections E i (mdx_sections mdx) w2 = (Inr (), w3) \<and>
        update_checksum E i c w3 = (out, w') \<and>
        calls w3 = calls w @ evs0 \<and> (\<forall>ev \<in> set evs0. \<not> is_checksum_write ev) \<and>
        evs = evs0 @ [SetChecksum i c]))"
proof -
  have a: "consistent w \<longrightarrow> consistent (snd (process_sources E shouldRefresh srcs w))"
    using process_sources_consistent [OF run_pair [of "process_sources E shouldRefresh srcs" w]]
    by blast
  have b: "upsert E path type source meta par w = (Inr pg, w1) \<longrightarrow>
      page_checksum pg = None \<and> page_by_path w1 path = Some pg"
    using upsert_stored by blast
  have c: "try_source E shouldRefresh src w = (out, w') \<and> calls w' = calls w @ evs \<and>
    SetChecksum i c \<in> set evs \<longrightarrow>
      (\<exists>mdx w0 w2 w3 evs0.
        load E src w = (Inr mdx, w0) \<and> c = mdx_checksum mdx \<and>
        index_sections E i (mdx_sections mdx) w2 = (Inr (), w3) \<and>
        update_checksum E i c w3 = (out, w') \<and>
        calls w3 = calls w @ evs0 \<and> (\<forall>ev \<in> set evs0. \<not> is_checksum_write ev) \<and>
        evs = evs0 @ [SetChecksum i c])"
    using checksum_write_last by blast
  from a b c show ?thesis by (intro conjI)
qed

theorem checksum_marks_complete_pages_witness:
  "consistent (snd (process_sources example_env False [welcome_source, intro_source] empty_world)) \<and>
   (\<exists>mdx w0 w2 w3 evs0.
      load example_env intro_source empty_world = (Inr mdx, w0) \<and>
      ''sha256-intro'' = mdx_checksum mdx \<and>
      index_sections example_env 1 (mdx_sections mdx) w2 = (Inr (), w3) \<and>
      update_checksum example_env 1 ''sha256-intro'' w3 =
        (fst (try_source example_env False intro_source empty_world),
         snd (try_source example_env False intro_source empty_world)) \<and>
      calls w3 = calls empty_world @ evs0 \<and> (\<forall>ev \<in> set evs0. \<not> is_checksum_write ev) \<and>
      [ReadFileCall ''docs/01-intro.mdx'', FindPage (Some ''docs/intro''), FindPage (Some ''docs/index''),
       UpsertPage ''docs/intro'',
       EmbeddingCall ''Intro.'', CreateSection 1, WriteEmbedding 1,
       EmbeddingCall ''Setup SetupInstall it.'', CreateSection 1, WriteEmbedding 2,
       EmbeddingCall ''Usage Usage'', CreateSection 1, WriteEmbedding 3,
       SetChecksum 1 ''sha256-intro''] = evs0 @ [SetChecksum 1 ''sha256-intro''])"
proof -
  let ?evs = "[ReadFileCall ''docs/01-intro.mdx'', FindPage (Some ''docs/intro''), FindPage (Some ''docs/index''),
       UpsertPage ''docs/intro'',
       EmbeddingCall ''Intro.'', CreateSection 1, WriteEmbedding 1,
       EmbeddingCall ''Setup SetupInstall it.'', CreateSection 1, WriteEmbedding 2,
       EmbeddingCall ''Usage Usage'', CreateSection 1, WriteEmbedding 3,
       SetChecksum 1 ''sha256-intro'']"
  have c: "calls (snd (try_source example_env False intro_source empty_world)) = calls empty_world @ ?evs"
    by code_simp
  have m: "SetChecksum 1 ''sha256-intro'' \<in> set ?evs" by simp
  note t = checksum_marks_complete_pages
    [of empty_world example_env False "[welcome_source, intro_source]" _ _ _ _ _ _ _
       intro_source "fst (try_source example_env False intro_source empty_world)"
       "snd (try_source example_env False intro_source empty_world)" ?evs 1 "''sha256-intro''"]
  from t consistent_empty_world c m show ?thesis by simp
qed

text \<open>
  Claim C2. A document loads with the checksum that the stored page of its path
  already has, and no refresh is asked for. Then, whatever fails, processing the
  document leaves the section table as it was, leaves every page's checksum as it
  was, and changes nothing of the page table but parent links; every call it makes is
  the read of the file, a page lookup, or the update of this page's parent link (no
  section deletion, no section insertion, no embedding call, no upsert, no checksum
  write). When the stored parent page's path equals the fresh parent path, the page
  table is unchanged and the only calls are the read and the first lookup.
\<close>

theorem unchanged_document_is_left_alone:
  assumes "load E src w = (Inr mdx, w0)"
    and "page_by_path w (src_path src) = Some pg"
    and "page_checksum pg = Some (mdx_checksum mdx)"
    and "try_source E False src w = (out, w')"
  shows "page_sections w' = page_sections w \<and>
     map page_checksum (pages w') = map page_checksum (pages w) \<and>
     map without_parent (pages w') = map without_parent (pages w) \<and>
     (\<exists>evs. calls w' = calls w @ evs \<and>
        (\<forall>ev \<in> set evs. lookup_or_link (page_id pg) ev \<and> \<not> section_call ev \<and>
                          \<not> is_checksum_write ev)) \<and>
     (map_option page_path (parentPage_of w pg) = src_parentPath src \<longrightarrow>
        pages w' = pages w \<and>
        calls w' = calls w @ [ReadFileCall (src_filePath src), FindPage (Some (src_path src))])"
proof -
  have k: "lookup_or_link p ev \<Longrightarrow> \<not> section_call ev \<and> \<not> is_checksum_write ev" for p ev
    by (cases ev) simp_all
  from try_source_unchanged [OF assms] k show ?thesis by blast
qed

theorem unchanged_document_is_left_alone_witness:
  "page_sections (snd (try_source example_env False intro_source indexed_world))
     = page_sections indexed_world \<and>
   pages (snd (try_source example_env False intro_source indexed_world)) = pages indexed_world \<and>
   calls (snd (try_source example_env False intro_source indexed_world))
     = calls indexed_world @ [ReadFileCall ''docs/01-intro.mdx'', FindPage (Some ''docs/intro'')]"
proof -
  have l: "fst (load example_env intro_source indexed_world) = Inr intro_mdx" by code_simp
  have h1: "load example_env intro_source indexed_world
      = (Inr intro_mdx, snd (load example_env intro_source indexed_world))"
    using l by (metis prod.collapse)
  have h2: "page_by_path indexed_world (src_path intro_source) = Some intro_page" by code_simp
  have h3: "page_checksum intro_page = Some (mdx_checksum intro_mdx)"
    by (simp add: intro_page_def intro_mdx_def)
  have h5: "map_option page_path (parentPage_of indexed_world intro_page) = src_parentPath intro_source"
    by code_simp
  have f: "src_filePath intro_source = ''docs/01-intro.mdx''" "src_path intro_source = ''docs/intro''"
    by code_simp+
  from unchanged_document_is_left_alone
         [OF h1 h2 h3 run_pair [of "try_source example_env False intro_source" indexed_world]] h5 f
  show ?thesis by simp
qed

text \<open>
  Claim C3. The claim says that a failure while a document is processed leaves the
  page's checksum null, and the message the \<open>catch\<close> block logs says so too. The store
  holds the page \<open>docs/intro\<close>, indexed with three sections. A forced refresh deletes
  the page's sections and then fails at the lookup of the parent page, before the
  upsert that would clear the checksum: the failure is caught, the page keeps its
  checksum and has no sections left. The next run without refresh finds the checksum
  equal to the fresh one and skips the page, which stays without sections.
\<close>

theorem failure_before_upsert_keeps_checksum:
  "map ps_page_id (page_sections indexed_world) = [1, 2, 2, 2] \<and>
   fst (try_source parent_lookup_fails_env True intro_source indexed_world) = Inl StoreError \<and>
   map (\<lambda>p. (page_id p, page_path p, page_checksum p))
     (pages (snd (process_source parent_lookup_fails_env True intro_source indexed_world)))
     = [(1, ''docs/index'', Some ''sha256-welcome''), (2, ''docs/intro'', Some ''sha256-intro'')] \<and>
   map ps_page_id
     (page_sections (snd (process_source parent_lookup_fails_env True intro_source indexed_world))) = [1] \<and>
   map ps_page_id
     (page_sections (snd (process_source example_env False intro_source
        (snd (process_source parent_lookup_fails_env True intro_source indexed_world))))) = [1]"
  by code_simp

text \<open>
  Claim C10. A document is read and parsed, and the filter returns nothing or a tree
  without children, so that there are no sections. Nothing fails and the store is
  consistent. Then processing the document succeeds; afterwards the page of the
  document's path has the checksum of the content; no embedding call, no section
  insertion and no embedding write is made. Unless the page was skipped as unchanged
  (no refresh asked for and the stored checksum already equal to the fresh one), the
  page has no section rows afterwards and the last two calls are the upsert of the
  page and the write of its checksum.
\<close>

theorem empty_document_is_indexed:
  assumes "readFile E (src_filePath src) = Some content"
    and "fromMarkdown E content = Some tree"
    and "unist_filter E tree not_mdx = None \<or>
         (\<exists>t. unist_filter E tree not_mdx = Some t \<and> children t = [])"
    and "\<forall>h e. \<not> fails E h e"
    and "consistent w"
    and "try_source E shouldRefresh src w = (out, w')"
  shows "mdx_sections (projr (processMdxForSearch E content)) = [] \<and>
     out = Inr () \<and>
     (\<exists>pg evs. page_by_path w' (src_path src) = Some pg \<and>
        page_checksum pg = Some (sha256_base64 E content) \<and>
        calls w' = calls w @ evs \<and> (\<forall>ev \<in> set evs. \<not> section_call ev) \<and>
        (shouldRefresh \<or>
         map_option page_checksum (page_by_path w (src_path src)) \<noteq> Some (Some (sha256_base64 E content)) \<longrightarrow>
           (\<forall>s \<in> set (page_sections w'). ps_page_id s \<noteq> page_id pg) \<and>
           (\<exists>pre. evs = pre @ [UpsertPage (src_path src),
                                SetChecksum (page_id pg) (sha256_base64 E content)])))"
proof -
  from mdx_no_sections [OF assms(2,3)]
  have "mdx_sections (projr (processMdxForSearch E content)) = []" by simp
  with empty_document [OF assms] show ?thesis by simp
qed

theorem empty_document_is_indexed_witness:
  "fst (try_source example_env False empty_source empty_world) = Inr () \<and>
   calls (snd (try_source example_env False empty_source empty_world)) =
    [ReadFileCall ''docs/02-empty.mdx'', FindPage (Some ''docs/empty''), FindPage (Some ''docs/index''),
     UpsertPage ''docs/empty'', SetChecksum 1 ''sha256-only-meta''] \<and>
   map page_checksum (pages (snd (try_source example_env False empty_source empty_world)))
     = [Some ''sha256-only-meta''] \<and>
   page_sections (snd (try_source example_env False empty_source empty_world)) = []"
proof -
  have h1: "readFile example_env (src_filePath empty_source) = Some ''only-meta''" by code_simp
  have h2: "fromMarkdown example_env ''only-meta'' = Some draft_tree" by code_simp
  have h3: "unist_filter example_env draft_tree not_mdx = None \<or>
         (\<exists>t. unist_filter example_env draft_tree not_mdx = Some t \<and> children t = [])"
  proof -
    have "unist_filter example_env draft_tree not_mdx = None" by code_simp
    then show ?thesis by simp
  qed
  have h4: "\<forall>h e. \<not> fails example_env h e" by (simp add: example_env_def)
  have e: "calls (snd (try_source example_env False empty_source empty_world)) =
    [ReadFileCall ''docs/02-empty.mdx'', FindPage (Some ''docs/empty''), FindPage (Some ''docs/index''),
     UpsertPage ''docs/empty'', SetChecksum 1 ''sha256-only-meta''] \<and>
   map page_checksum (pages (snd (try_source example_env False empty_source empty_world)))
     = [Some ''sha256-only-meta''] \<and>
   page_sections (snd (try_source example_env False empty_source empty_world)) = []"
    by code_simp
  from empty_document_is_indexed [OF h1 h2 h3 h4 consistent_empty_world
         run_pair [of "try_source example_env False empty_source" empty_world]]
  have "fst (try_source example_env False empty_source empty_world) = Inr ()" by simp
  with e show ?thesis by simp
qed

end
